theory Spec2Isabelle
  imports Main "HOL-Library.Sublist" "HOL-Library.Word"
begin

section \<open>Strings\<close>

text \<open>
  A JavaScript string is a sequence of UTF-16 code units. The model of the script holds a
  code unit in a \<^typ>\<open>char\<close>, which has 8 bits: it covers the titles whose code units are
  U+0000 to U+00FF (ASCII and the Latin-1 supplement), read by \<open>code\<close>. On that range the
  case mapping and the character classes of the regular expressions are written out in
  full. The section on the strings of any code units has \<open>slugify\<close> on all strings, and
  the two agree on the titles of this range (\<open>slugify16_ustr\<close>).
\<close>

definition code :: "char \<Rightarrow> nat" where
  "code c = of_char c"

text \<open>
  \<open>String.prototype.toLowerCase\<close>: the letters A to Z (65 to 90) and the capital letters
  of the Latin-1 supplement (192 to 222, without the multiplication sign 215) move up by
  32; every other code unit below 256 is its own lower case.
\<close>

definition lower_unit :: "char \<Rightarrow> char" where
  "lower_unit c =
     (if (65 \<le> code c \<and> code c \<le> 90) \<or> (192 \<le> code c \<and> code c \<le> 222 \<and> code c \<noteq> 215)
      then char_of (code c + 32) else c)"

definition toLowerCase :: "string \<Rightarrow> string" where
  "toLowerCase s = map lower_unit s"

text \<open>The class \<open>\w\<close> of a regular expression without the unicode flag: \<open>[A-Za-z0-9_]\<close>.\<close>

definition word_char :: "char \<Rightarrow> bool" where
  "word_char c =
     ((48 \<le> code c \<and> code c \<le> 57) \<or> (65 \<le> code c \<and> code c \<le> 90) \<or> code c = 95
      \<or> (97 \<le> code c \<and> code c \<le> 122))"

text \<open>
  The class \<open>\s\<close>, which is also what \<open>trim\<close> removes: white space and line terminators.
  Below 256 these are tab, line feed, vertical tab, form feed, carriage return (9 to 13),
  space (32) and the no-break space (160).
\<close>

definition space_char :: "char \<Rightarrow> bool" where
  "space_char c = ((9 \<le> code c \<and> code c \<le> 13) \<or> code c = 32 \<or> code c = 160)"

definition hyphen :: "char \<Rightarrow> bool" where
  "hyphen c = (c = CHR ''-'')"

text \<open>
  \<open>s.replace(/[C]/g, r)\<close> for a character class \<open>C\<close>: the scan goes left to right, a
  code unit of the class is replaced by \<open>r\<close>, any other is copied.
\<close>

fun replace_class :: "(char \<Rightarrow> bool) \<Rightarrow> string \<Rightarrow> string \<Rightarrow> string" where
  "replace_class C r [] = []"
| "replace_class C r (c # cs) =
     (if C c then r @ replace_class C r cs else c # replace_class C r cs)"

text \<open>
  \<open>s.replace(/[C]+/g, r)\<close>: at a code unit of the class the greedy \<open>+\<close> takes the whole
  run, which is replaced by one \<open>r\<close>, and the scan goes on after the run.
\<close>

function replace_plus :: "(char \<Rightarrow> bool) \<Rightarrow> string \<Rightarrow> string \<Rightarrow> string" where
  "replace_plus C r [] = []"
| "replace_plus C r (c # cs) =
     (if C c then r @ replace_plus C r (dropWhile C cs) else c # replace_plus C r cs)"
  by pat_completeness auto
termination
  by (relation "measure (\<lambda>(C, r, s). length s)")
     (auto simp: length_dropWhile_le less_Suc_eq_le)

text \<open>\<open>String.prototype.trim\<close>: the white space at both ends is dropped.\<close>

definition trim :: "string \<Rightarrow> string" where
  "trim s = rev (dropWhile space_char (rev (dropWhile space_char s)))"

section \<open>slugify\<close>

text \<open>
  \<^verbatim>\<open>s.toString().toLowerCase().replace(/[^\w\s-]/g, '').trim()
     .replace(/\s+/g, '-').replace(/-+/g, '-')\<close>
  The argument is a string, so \<open>toString\<close> returns it.
\<close>

definition slugify :: "string \<Rightarrow> string" where
  "slugify s =
     replace_plus hyphen ''-''
       (replace_plus space_char ''-''
         (trim
           (replace_class (\<lambda>c. \<not> (word_char c \<or> space_char c \<or> hyphen c)) ''''
             (toLowerCase s))))"

subsection \<open>The algorithm as the specification words it\<close>

text \<open>
  The specification describes \<open>slugify\<close> in five steps: lowercase the title; remove every
  character that is not a letter, digit, underscore, whitespace, or hyphen; trim; turn each
  run of whitespace into a single hyphen; turn each run of hyphens into one hyphen.
  \<open>slugify_spec\<close> follows these words. What counts as a letter is its parameter:
  \<open>letter\<close> is every letter among the code units below 256 (the ASCII letters, the
  ordinal indicators, the micro sign and the accented letters from 192 to 255 without the
  multiplication and division signs), \<open>ascii_letter\<close> only A to Z and a to z.
\<close>

definition ascii_letter :: "char \<Rightarrow> bool" where
  "ascii_letter c = ((65 \<le> code c \<and> code c \<le> 90) \<or> (97 \<le> code c \<and> code c \<le> 122))"

definition letter :: "char \<Rightarrow> bool" where
  "letter c =
     (ascii_letter c \<or> code c = 170 \<or> code c = 181 \<or> code c = 186
      \<or> (192 \<le> code c \<and> code c \<noteq> 215 \<and> code c \<noteq> 247))"

definition digit :: "char \<Rightarrow> bool" where
  "digit c = (48 \<le> code c \<and> code c \<le> 57)"

definition kept :: "(char \<Rightarrow> bool) \<Rightarrow> char \<Rightarrow> bool" where
  "kept is_letter c = (is_letter c \<or> digit c \<or> c = CHR ''_'' \<or> space_char c \<or> hyphen c)"

text \<open>
  Every maximal run of characters of \<open>P\<close> becomes a single hyphen: a character of a run
  that is followed by another one of the run is dropped, the last one becomes the hyphen.
\<close>

fun squeeze :: "(char \<Rightarrow> bool) \<Rightarrow> string \<Rightarrow> string" where
  "squeeze P [] = []"
| "squeeze P [a] = [if P a then CHR ''-'' else a]"
| "squeeze P (a # b # cs) =
     (if P a \<and> P b then squeeze P (b # cs)
      else (if P a then CHR ''-'' else a) # squeeze P (b # cs))"

definition slugify_spec :: "(char \<Rightarrow> bool) \<Rightarrow> string \<Rightarrow> string" where
  "slugify_spec is_letter t =
     squeeze hyphen (squeeze space_char (trim (filter (kept is_letter) (toLowerCase t))))"

section \<open>Strings of any code units\<close>

text \<open>
  The string functions once more, on the strings of all UTF-16 code units (16-bit words),
  for the statements about \<open>slugify\<close> on every title. \<open>ustr\<close> gives a string of code units
  below 256 as such a string.
\<close>

type_synonym u16 = "16 word"

definition unit_of :: "char \<Rightarrow> u16" where
  "unit_of c = of_nat (code c)"

definition ustr :: "string \<Rightarrow> u16 list" where
  "ustr s = map unit_of s"

text \<open>
  \<open>String.prototype.toLowerCase\<close> takes the lower case of every code point from the Unicode
  data. The model writes out the code units below U+0100, the two code units above whose
  lower case has an ASCII letter (U+0130 gives i and U+0307, the Kelvin sign U+212A gives
  k), and the white space, which has no case. The data for every other code unit is the
  parameter \<open>tab\<close>: \<open>tab s i\<close> is what the code unit at position \<open>i\<close> of \<open>s\<close> contributes
  to the result; it is given the string because the halves of a surrogate pair and the
  capital sigma depend on their neighbours.
\<close>

type_synonym case_table = "u16 list \<Rightarrow> nat \<Rightarrow> u16 list"

text \<open>The class \<open>\s\<close> and the characters that \<open>trim\<close> removes, in full.\<close>

definition space_unit :: "u16 \<Rightarrow> bool" where
  "space_unit u =
     ((9 \<le> unat u \<and> unat u \<le> 13) \<or> unat u = 32 \<or> unat u = 160 \<or> unat u = 0x1680
      \<or> (0x2000 \<le> unat u \<and> unat u \<le> 0x200A) \<or> unat u = 0x2028 \<or> unat u = 0x2029
      \<or> unat u = 0x202F \<or> unat u = 0x205F \<or> unat u = 0x3000 \<or> unat u = 0xFEFF)"

definition lower_at :: "case_table \<Rightarrow> u16 list \<Rightarrow> nat \<Rightarrow> u16 list" where
  "lower_at tab s i =
     (if (65 \<le> unat (s ! i) \<and> unat (s ! i) \<le> 90)
         \<or> (192 \<le> unat (s ! i) \<and> unat (s ! i) \<le> 222 \<and> unat (s ! i) \<noteq> 215)
      then [s ! i + 32]
      else if unat (s ! i) < 256 then [s ! i]
      else if unat (s ! i) = 0x130 then [0x69, 0x307]
      else if unat (s ! i) = 0x212A then [0x6B]
      else if space_unit (s ! i) then [s ! i]
      else tab s i)"

definition toLowerCase16 :: "case_table \<Rightarrow> u16 list \<Rightarrow> u16 list" where
  "toLowerCase16 tab s = concat (map (lower_at tab s) [0..<length s])"

definition word_unit :: "u16 \<Rightarrow> bool" where
  "word_unit u =
     ((48 \<le> unat u \<and> unat u \<le> 57) \<or> (65 \<le> unat u \<and> unat u \<le> 90) \<or> unat u = 95
      \<or> (97 \<le> unat u \<and> unat u \<le> 122))"

definition hyphen_unit :: "u16 \<Rightarrow> bool" where
  "hyphen_unit u = (u = 0x2D)"

fun replace_class16 :: "(u16 \<Rightarrow> bool) \<Rightarrow> u16 list \<Rightarrow> u16 list \<Rightarrow> u16 list" where
  "replace_class16 C r [] = []"
| "replace_class16 C r (u # us) =
     (if C u then r @ replace_class16 C r us else u # replace_class16 C r us)"

function replace_plus16 :: "(u16 \<Rightarrow> bool) \<Rightarrow> u16 list \<Rightarrow> u16 list \<Rightarrow> u16 list" where
  "replace_plus16 C r [] = []"
| "replace_plus16 C r (u # us) =
     (if C u then r @ replace_plus16 C r (dropWhile C us) else u # replace_plus16 C r us)"
  by pat_completeness auto
termination
  by (relation "measure (\<lambda>(C, r, s). length s)")
     (auto simp: length_dropWhile_le less_Suc_eq_le)

definition trim16 :: "u16 list \<Rightarrow> u16 list" where
  "trim16 s = rev (dropWhile space_unit (rev (dropWhile space_unit s)))"

text \<open>\<open>slugify\<close> on every string, by the same chain of calls.\<close>

definition slugify16 :: "case_table \<Rightarrow> u16 list \<Rightarrow> u16 list" where
  "slugify16 tab s =
     replace_plus16 hyphen_unit [0x2D]
       (replace_plus16 space_unit [0x2D]
         (trim16
           (replace_class16 (\<lambda>u. \<not> (word_unit u \<or> space_unit u \<or> hyphen_unit u)) []
             (toLowerCase16 tab s))))"

subsection \<open>The five steps of the specification on every string\<close>

text \<open>
  The steps in the words of the specification, with "letter" read as ASCII letter: after
  the lower case, keep the ASCII letters, the digits, the underscore, the white space and
  the hyphen; take the white space off the front and off the back; put one hyphen for
  every run of white space, then one hyphen for every run of hyphens.
\<close>

definition kept16 :: "u16 \<Rightarrow> bool" where
  "kept16 u =
     ((65 \<le> unat u \<and> unat u \<le> 90) \<or> (97 \<le> unat u \<and> unat u \<le> 122)
      \<or> (48 \<le> unat u \<and> unat u \<le> 57) \<or> u = 0x5F \<or> space_unit u \<or> u = 0x2D)"

fun strip_front :: "u16 list \<Rightarrow> u16 list" where
  "strip_front [] = []"
| "strip_front (u # us) = (if space_unit u then strip_front us else u # us)"

fun strip_back :: "u16 list \<Rightarrow> u16 list" where
  "strip_back [] = []"
| "strip_back (u # us) =
     (if space_unit u \<and> strip_back us = [] then [] else u # strip_back us)"

fun squeeze16 :: "(u16 \<Rightarrow> bool) \<Rightarrow> u16 list \<Rightarrow> u16 list" where
  "squeeze16 P [] = []"
| "squeeze16 P [a] = [if P a then 0x2D else a]"
| "squeeze16 P (a # b # us) =
     (if P a \<and> P b then squeeze16 P (b # us)
      else (if P a then 0x2D else a) # squeeze16 P (b # us))"

definition slugify_spec16 :: "case_table \<Rightarrow> u16 list \<Rightarrow> u16 list" where
  "slugify_spec16 tab t =
     squeeze16 (\<lambda>u. u = 0x2D)
       (squeeze16 space_unit (strip_back (strip_front (filter kept16 (toLowerCase16 tab t)))))"

text \<open>The code units of a slug, and a run of hyphens.\<close>

definition slug_unit :: "u16 \<Rightarrow> bool" where
  "slug_unit u =
     ((48 \<le> unat u \<and> unat u \<le> 57) \<or> (97 \<le> unat u \<and> unat u \<le> 122) \<or> u = 0x5F \<or> u = 0x2D)"

fun hyphen_run16 :: "u16 list \<Rightarrow> bool" where
  "hyphen_run16 (a # b # us) = ((a = 0x2D \<and> b = 0x2D) \<or> hyphen_run16 (b # us))"
| "hyphen_run16 us = False"

text \<open>
  What the statements ask of the case data: where it is consulted, at a code unit from
  U+0100 on, the lower case that it gives holds no ASCII capital letter.
\<close>

definition no_capitals :: "case_table \<Rightarrow> bool" where
  "no_capitals tab =
     (\<forall>s i. i < length s \<and> 256 \<le> unat (s ! i) \<longrightarrow>
        (\<forall>v \<in> set (tab s i). \<not> (65 \<le> unat v \<and> unat v \<le> 90)))"

text \<open>
  A piece of case data for the examples: U+0100 has the lower case U+0101, and every
  other code unit that it is asked about is its own lower case.
\<close>

definition sample_table :: case_table where
  "sample_table s i = (if s ! i = 0x100 then [0x101] else [s ! i])"

section \<open>The placeholder recipe\<close>

record recipe =
  intro :: string
  ingredients :: "string list"
  steps :: "string list"

definition buildRecipe :: "string \<Rightarrow> recipe" where
  "buildRecipe title =
     \<lparr> intro = title @ '' is a simple, budget-friendly recipe you'' @ [CHR 0x27]
          @ ''ll love. Quick to prepare and packed with flavor.'',
       ingredients =
         [''1 cup rice or pasta (or as needed)'',
          ''200g protein (chicken, tuna, beans)'',
          ''1 tbsp olive oil'',
          ''1 garlic clove, minced'',
          ''Salt and pepper to taste'',
          ''Optional: herbs, lemon, chili flakes''],
       steps =
         [''Prepare ingredients and season the protein.'',
          ''Heat oil in a pan, saut'' @ [CHR 0xE9] @ '' garlic until fragrant.'',
          ''Add protein and cook until done.'',
          ''Add rice/pasta and combine, adjust seasoning.'',
          ''Serve hot with a lemon wedge or fresh herbs.''] \<rparr>"

section \<open>Records, pages and files\<close>

text \<open>The object \<open>meta\<close> that the loop builds for a new article.\<close>

record meta =
  meta_id :: string
  meta_title :: string
  meta_slug :: string
  meta_category :: string
  meta_thumb :: string
  meta_excerpt :: string
  meta_canonical :: string
  meta_ts :: nat

text \<open>
  One entry of the index list, with the fields that the loop pushes. The field \<open>id\<close> of
  the source is \<open>id'\<close> here.
\<close>

record article =
  id' :: string
  slug :: string
  title :: string
  category :: string
  excerpt :: string
  path :: string
  ts :: nat

text \<open>
  \<open>articleHTML\<close> is a fixed template around the fields of \<open>meta\<close>, the recipe and the
  current year; it reads nothing else. The template holds characters above U+00FF, so the
  model keeps a page as the values that the template is filled with.
\<close>

record page =
  page_meta :: meta
  page_recipe :: recipe
  page_year :: nat

definition articleHTML :: "meta \<Rightarrow> recipe \<Rightarrow> nat \<Rightarrow> page" where
  "articleHTML m recipeHtml yr = \<lparr> page_meta = m, page_recipe = recipeHtml, page_year = yr \<rparr>"

text \<open>
  The configuration, of the documented shape
  \<^verbatim>\<open>{ "domain": string, "categories": [ { "name": string, "items": [string, ...] }, ... ] }\<close>
  where every field may be absent (\<open>None\<close>).
\<close>

record category_entry =
  name :: "string option"
  items :: "string list option"

record source_config =
  domain :: "string option"
  categories :: "category_entry list option"

text \<open>
  What \<open>JSON.parse\<close> makes of the text of \<open>source.json\<close>: a syntax error, or a
  configuration.
\<close>

datatype source_file = Malformed | Source source_config

text \<open>
  What \<open>JSON.parse\<close> makes of the text of \<open>articles.json\<close>: a syntax error; \<open>null\<close>, on
  which reading \<open>old.list\<close> raises a TypeError; or a value with an optional timestamp whose
  \<open>list\<close> is an array of records (\<open>Some\<close>) or anything else (\<open>None\<close>). The program writes
  \<open>JSON.stringify\<close> of an object of the last form, and parsing that text gives the
  object back.
\<close>

datatype index_file = Unparsable | Parsed_null | Parsed "nat option" "article list option"

text \<open>
  The part of the file system that the script touches: the two output directories, the
  configuration file, the index file, and the files of the articles directory by name.
  Operations on files are taken to succeed.
\<close>

record filesystem =
  data_dir :: bool
  articles_dir :: bool
  source_json :: "source_file option"
  articles_json :: "index_file option"
  articles :: "string \<rightharpoonup> page"

text \<open>
  The lines printed to the console, one constructor per message; \<open>Wrote\<close> carries the file
  name inside the articles directory, \<open>Wrote_JSON\<close> the number of records.
\<close>

datatype event =
    Created_default
  | Parse_failed
  | Skipping string
  | Wrote string
  | Wrote_JSON nat
  | Done

text \<open>
  What a run reads from outside: the successive values of \<open>Date.now()\<close>, the successive
  texts of \<open>Math.random().toString(36)\<close>, and the year of \<open>new Date().getFullYear()\<close>.
\<close>

record env =
  now :: "nat \<Rightarrow> nat"
  random36 :: "nat \<Rightarrow> string"
  year :: nat

text \<open>\<open>Number.prototype.toString(36)\<close> on a natural number.\<close>

fun toString36 :: "nat \<Rightarrow> string" where
  "toString36 n =
     (if n < 36 then [''0123456789abcdefghijklmnopqrstuvwxyz'' ! n]
      else toString36 (n div 36) @ [''0123456789abcdefghijklmnopqrstuvwxyz'' ! (n mod 36)])"

declare toString36.simps [simp del]

section \<open>The main script\<close>

text \<open>
  The state of the loop: the accumulated list, the articles directory, the console, and
  how many values of the clock and of the random source have been used.
\<close>

record state =
  articlesList :: "article list"
  files :: "string \<rightharpoonup> page"
  out :: "event list"
  clock :: nat
  draws :: nat

definition defaultSrc :: source_config where
  "defaultSrc =
     \<lparr> domain = Some ''https://plateup.pro'',
       categories = Some
         [\<lparr> name = Some ''Budget Cooking'',
            items = Some [''Cheap Chicken Rice'', ''Beans Pasta'', ''Eggs on Toast'',
                          ''Budget Chili'', ''Tuna Wrap''] \<rparr>] \<rparr>"

text \<open>
  The object literal \<open>meta\<close> of the loop body, for the title \<open>itemName\<close> with the slug
  \<open>s\<close>. Its fields are evaluated in order: \<open>id\<close> reads the clock and then the random
  source, \<open>ts\<close> reads the clock again.
\<close>

definition build_meta :: "env \<Rightarrow> string \<Rightarrow> string \<Rightarrow> string \<Rightarrow> string \<Rightarrow> state \<Rightarrow> meta" where
  "build_meta e domain' catName itemName s st =
     \<lparr> meta_id = toString36 (now e (clock st)) @ take 4 (drop 2 (random36 e (draws st))),
       meta_title = itemName,
       meta_slug = s,
       meta_category = catName,
       meta_thumb = '''',
       meta_excerpt = take 140 (intro (buildRecipe itemName)),
       meta_canonical =
         (if domain' \<noteq> '''' then domain' @ ''/articles/'' @ s @ ''.html''
          else ''/articles/'' @ s @ ''.html''),
       meta_ts = now e (clock st + 1) \<rparr>"

text \<open>The object that is pushed to the list.\<close>

definition index_entry :: "meta \<Rightarrow> article" where
  "index_entry m =
     \<lparr> id' = meta_id m, slug = meta_slug m, title = meta_title m,
       category = meta_category m, excerpt = meta_excerpt m,
       path = ''articles/'' @ meta_slug m @ ''.html'', ts = meta_ts m \<rparr>"

text \<open>
  The body of the inner loop, for one item of a category. \<open>find\<close> returns the first record
  with the slug; a record is an object, hence truthy.
\<close>

definition item_body :: "env \<Rightarrow> string \<Rightarrow> string \<Rightarrow> string \<Rightarrow> state \<Rightarrow> state" where
  "item_body e domain' catName itemName st =
     (let s = slugify itemName in
      if find (\<lambda>a. slug a = s) (articlesList st) \<noteq> None
      then st\<lparr> out := out st @ [Skipping s] \<rparr>
      else
        let rcp = buildRecipe itemName;
            m = build_meta e domain' catName itemName s st;
            html = articleHTML m rcp (year e);
            outPath = s @ ''.html''
        in st\<lparr> files := (files st)(outPath \<mapsto> html),
                out := out st @ [Wrote outPath],
                articlesList := articlesList st @ [index_entry m],
                clock := clock st + 2,
                draws := draws st + 1 \<rparr>)"

fun items_loop :: "env \<Rightarrow> string \<Rightarrow> string \<Rightarrow> string list \<Rightarrow> state \<Rightarrow> state" where
  "items_loop e domain' catName [] st = st"
| "items_loop e domain' catName (itemName # rest) st =
     items_loop e domain' catName rest (item_body e domain' catName itemName st)"

text \<open>\<open>cat.name || "General"\<close>: an absent or empty name is falsy. \<open>cat.items || []\<close>.\<close>

definition cat_name :: "category_entry \<Rightarrow> string" where
  "cat_name cat = (case name cat of None \<Rightarrow> ''General'' | Some n \<Rightarrow> if n = '''' then ''General'' else n)"

definition cat_items :: "category_entry \<Rightarrow> string list" where
  "cat_items cat = (case items cat of None \<Rightarrow> [] | Some xs \<Rightarrow> xs)"

fun categories_loop :: "env \<Rightarrow> string \<Rightarrow> category_entry list \<Rightarrow> state \<Rightarrow> state" where
  "categories_loop e domain' [] st = st"
| "categories_loop e domain' (cat # rest) st =
     categories_loop e domain' rest (items_loop e domain' (cat_name cat) (cat_items cat) st)"

text \<open>
  Reading the previous list: a missing file, a syntax error, the TypeError on \<open>null\<close>
  (caught by the same \<open>catch\<close>) and a \<open>list\<close> that is not an array all leave the list empty.
\<close>

definition loadExistingIndex :: "index_file option \<Rightarrow> article list" where
  "loadExistingIndex f =
     (case f of
        None \<Rightarrow> []
      | Some Unparsable \<Rightarrow> []
      | Some Parsed_null \<Rightarrow> []
      | Some (Parsed t None) \<Rightarrow> []
      | Some (Parsed t (Some l)) \<Rightarrow> l)"

text \<open>
  The script from top to bottom. The result is the exit status, the console and the file
  system at the end. A missing configuration is written with the default and read back.
\<close>

definition main :: "env \<Rightarrow> filesystem \<Rightarrow> nat \<times> event list \<times> filesystem" where
  "main e fs0 =
     (let fs1 = fs0\<lparr> data_dir := True, articles_dir := True \<rparr>;
          fs2 = (case source_json fs1 of
                   None \<Rightarrow> fs1\<lparr> source_json := Some (Source defaultSrc) \<rparr>
                 | Some c \<Rightarrow> fs1);
          out0 = (case source_json fs1 of None \<Rightarrow> [Created_default] | Some c \<Rightarrow> [])
      in case source_json fs2 of
           Some (Source src) \<Rightarrow>
             (let domain' = (case domain src of None \<Rightarrow> '''' | Some d \<Rightarrow> d);
                  cats = (case categories src of None \<Rightarrow> [] | Some cs \<Rightarrow> cs);
                  st0 = \<lparr> articlesList = loadExistingIndex (articles_json fs2),
                          files = articles fs2, out = out0, clock = 0, draws = 0 \<rparr>;
                  st = categories_loop e domain' cats st0;
                  outObj = Parsed (Some (now e (clock st))) (Some (articlesList st))
              in (0, out st @ [Wrote_JSON (length (articlesList st)), Done],
                  fs2\<lparr> articles := files st, articles_json := Some outObj \<rparr>))
         | _ \<Rightarrow> (1, out0 @ [Parse_failed], fs2))"

text \<open>The list that a run starting on this file system loads.\<close>

definition index_list :: "filesystem \<Rightarrow> article list" where
  "index_list fs = loadExistingIndex (articles_json fs)"

section \<open>Notions used in the statements\<close>

text \<open>The three components of the result of a run.\<close>

definition exit_status :: "nat \<times> event list \<times> filesystem \<Rightarrow> nat" where
  "exit_status r = fst r"

definition console :: "nat \<times> event list \<times> filesystem \<Rightarrow> event list" where
  "console r = fst (snd r)"

definition final_fs :: "nat \<times> event list \<times> filesystem \<Rightarrow> filesystem" where
  "final_fs r = snd (snd r)"

text \<open>The names of the article files that a console reports as written, in order.\<close>

fun written :: "event list \<Rightarrow> string list" where
  "written [] = []"
| "written (Wrote p # es) = p # written es"
| "written (ev # es) = written es"

text \<open>
  The configuration that a run works with: the parsed file, or the default when the file
  is missing.
\<close>

definition effective_source :: "filesystem \<Rightarrow> source_file" where
  "effective_source fs = (case source_json fs of None \<Rightarrow> Source defaultSrc | Some c \<Rightarrow> c)"

definition src_domain :: "source_config \<Rightarrow> string" where
  "src_domain src = (case domain src of None \<Rightarrow> '''' | Some d \<Rightarrow> d)"

definition src_categories :: "source_config \<Rightarrow> category_entry list" where
  "src_categories src = (case categories src of None \<Rightarrow> [] | Some cs \<Rightarrow> cs)"

text \<open>
  The pairs (category name, item title) of a configuration in the order in which the two
  nested loops visit them, and the body of the inner loop as a function of such a pair.
\<close>

definition pairs :: "category_entry list \<Rightarrow> (string \<times> string) list" where
  "pairs cats = concat (map (\<lambda>cat. map (Pair (cat_name cat)) (cat_items cat)) cats)"

definition step :: "env \<Rightarrow> string \<Rightarrow> state \<Rightarrow> string \<times> string \<Rightarrow> state" where
  "step e domain' st p = item_body e domain' (fst p) (snd p) st"

text \<open>The state in which the loop of a run starts.\<close>

definition initial_state :: "filesystem \<Rightarrow> state" where
  "initial_state fs =
     \<lparr> articlesList = index_list fs, files = articles fs,
       out = (case source_json fs of None \<Rightarrow> [Created_default] | Some c \<Rightarrow> []),
       clock = 0, draws = 0 \<rparr>"

text \<open>The state in which the loop of a run over the configuration \<open>src\<close> ends.\<close>

definition loop_end :: "env \<Rightarrow> filesystem \<Rightarrow> source_config \<Rightarrow> state" where
  "loop_end e fs src =
     foldl (step e (src_domain src)) (initial_state fs) (pairs (src_categories src))"

text \<open>
  What happens to the file system over time: the script runs in some environment, or
  something else changes the file system and leaves the index file alone (the
  configuration is edited, article files are moved). \<open>replay\<close> gives the file system
  after a sequence of such actions.
\<close>

datatype action = Run env | Edit "filesystem \<Rightarrow> filesystem"

fun replay :: "action list \<Rightarrow> filesystem \<Rightarrow> filesystem" where
  "replay [] fs = fs"
| "replay (Run e # rest) fs = replay rest (final_fs (main e fs))"
| "replay (Edit f # rest) fs = replay rest ((f fs)\<lparr> articles_json := articles_json fs \<rparr>)"

text \<open>The excerpt of a record is within 140 characters and starts the introduction of its title.\<close>

definition excerpt_ok :: "article \<Rightarrow> bool" where
  "excerpt_ok r =
     (length (excerpt r) \<le> 140 \<and> prefix (excerpt r) (intro (buildRecipe (title r))))"

subsection \<open>Concrete inputs\<close>

definition env0 :: env where
  "env0 = \<lparr> now = (\<lambda>k. 1700000000000 + k), random36 = (\<lambda>k. ''0.4fzyo82mvyr''), year = 2026 \<rparr>"

definition env1 :: env where
  "env1 = \<lparr> now = (\<lambda>k. 1700000360000 + k), random36 = (\<lambda>k. ''0.9x2c1kq0p7''), year = 2026 \<rparr>"

definition fresh_fs :: filesystem where
  "fresh_fs = \<lparr> data_dir = False, articles_dir = False, source_json = None,
                articles_json = None, articles = Map.empty \<rparr>"

definition tuna_src :: source_config where
  "tuna_src =
     \<lparr> domain = None,
       categories = Some
         [\<lparr> name = Some ''Lunch'', items = Some [''Tuna Wrap''] \<rparr>,
          \<lparr> name = None, items = Some [''Eggs on Toast'', ''Tuna Wrap''] \<rparr>] \<rparr>"

definition lunch_src :: source_config where
  "lunch_src =
     \<lparr> domain = Some ''https://plateup.pro'',
       categories = Some [\<lparr> name = Some ''Lunch'', items = Some [''Tuna Wrap''] \<rparr>] \<rparr>"

text \<open>\<open>lunch_src\<close> plus one new item, whose slug is the slug of "Tuna Wrap".\<close>

definition lunch_same_slug :: source_config where
  "lunch_same_slug =
     \<lparr> domain = Some ''https://plateup.pro'',
       categories = Some
         [\<lparr> name = Some ''Lunch'', items = Some [''Tuna Wrap'', ''tuna wrap!''] \<rparr>] \<rparr>"

text \<open>\<open>lunch_src\<close> plus one new item with a slug of its own.\<close>

definition lunch_plus :: source_config where
  "lunch_plus =
     \<lparr> domain = Some ''https://plateup.pro'',
       categories = Some
         [\<lparr> name = Some ''Lunch'', items = Some [''Budget Chili'', ''Tuna Wrap''] \<rparr>] \<rparr>"

definition empty_src :: source_config where
  "empty_src = \<lparr> domain = Some ''https://plateup.pro'', categories = Some [] \<rparr>"

definition marks_src :: source_config where
  "marks_src =
     \<lparr> domain = None,
       categories = Some
         [\<lparr> name = Some ''Odd'', items = Some [''Tuna Wrap'', ''!!!'', ''Beans Pasta'', ''?!''] \<rparr>] \<rparr>"

definition with_source :: "source_config \<Rightarrow> filesystem" where
  "with_source src = fresh_fs\<lparr> source_json := Some (Source src) \<rparr>"

section \<open>Lemmas about the string functions\<close>

lemma replace_class_filter: "replace_class (\<lambda>c. \<not> K c) '''' s = filter K s"
  by (induction s) auto

lemma replace_plus_squeeze: "replace_plus P ''-'' s = squeeze P s"
  by (induction P s rule: squeeze.induct) auto

lemma code_underscore: "(code c = 95) = (c = CHR ''_'')"
proof
  assume "code c = 95"
  then have "char_of (of_char c :: nat) = (char_of (95::nat) :: char)" by (simp add: code_def)
  then have "c = char_of (95::nat)" by simp
  also have "char_of (95::nat) = CHR ''_''" by code_simp
  finally show "c = CHR ''_''" .
next
  assume "c = CHR ''_''"
  then show "code c = 95" by (simp add: code_def)
qed

lemma code_hyphen: "(code c = 45) = (c = CHR ''-'')"
proof
  assume "code c = 45"
  then have "char_of (of_char c :: nat) = (char_of (45::nat) :: char)" by (simp add: code_def)
  then have "c = char_of (45::nat)" by simp
  also have "char_of (45::nat) = CHR ''-''" by code_simp
  finally show "c = CHR ''-''" .
next
  assume "c = CHR ''-''"
  then show "code c = 45" by (simp add: code_def)
qed

lemma kept_ascii: "kept ascii_letter = (\<lambda>c. word_char c \<or> space_char c \<or> hyphen c)"
  by (auto simp: kept_def ascii_letter_def word_char_def digit_def code_underscore [symmetric] fun_eq_iff)

lemma slugify_steps:
  "slugify t = squeeze hyphen (squeeze space_char (trim (filter (kept ascii_letter) (toLowerCase t))))"
  unfolding slugify_def kept_ascii replace_class_filter replace_plus_squeeze ..

lemma code_less: "code c < 256"
  by (simp add: code_def)

lemma code_char_of: "n < 256 \<Longrightarrow> code (char_of n) = n"
  by (simp add: code_def)

lemma code_lower_unit:
  "code (lower_unit c) =
     (if (65 \<le> code c \<and> code c \<le> 90) \<or> (192 \<le> code c \<and> code c \<le> 222 \<and> code c \<noteq> 215)
      then code c + 32 else code c)"
  by (simp add: lower_unit_def code_char_of)

lemma kept_ascii_code:
  "kept ascii_letter c = ((48 \<le> code c \<and> code c \<le> 57) \<or> (65 \<le> code c \<and> code c \<le> 90)
     \<or> (97 \<le> code c \<and> code c \<le> 122) \<or> code c = 95 \<or> code c = 45 \<or> space_char c)"
  by (auto simp: kept_def ascii_letter_def digit_def hyphen_def code_underscore code_hyphen)

section \<open>Lemmas about the strings of any code units\<close>

lemma replace_class16_filter: "replace_class16 (\<lambda>u. \<not> K u) [] s = filter K s"
  by (induction s) auto

lemma replace_plus16_squeeze: "replace_plus16 P [0x2D] s = squeeze16 P s"
  by (induction P s rule: squeeze16.induct) auto

lemma strip_front_dropWhile: "strip_front s = dropWhile space_unit s"
  by (induction s) auto

lemma strip_back_Nil: "(strip_back s = []) = (\<forall>u \<in> set s. space_unit u)"
  by (induction s) auto

lemma strip_back_rev: "strip_back s = rev (dropWhile space_unit (rev s))"
proof (induction s)
  case Nil
  then show ?case by simp
next
  case (Cons u us)
  show ?case
  proof (cases "\<forall>x \<in> set us. space_unit x")
    case True
    then show ?thesis by (simp add: dropWhile_append strip_back_Nil)
  next
    case False
    then show ?thesis using Cons by (auto simp: dropWhile_append strip_back_Nil)
  qed
qed

lemma trim16_strip: "trim16 s = strip_back (strip_front s)"
  by (simp add: trim16_def strip_back_rev strip_front_dropWhile)

lemma unit_eq_unat: "(u = (numeral k :: u16)) = (unat u = unat (numeral k :: u16))"
  by (simp add: word_unat_eq_iff)

lemma kept16_classes: "kept16 = (\<lambda>u. word_unit u \<or> space_unit u \<or> hyphen_unit u)"
  by (auto simp: kept16_def word_unit_def hyphen_unit_def fun_eq_iff unit_eq_unat)

lemma hyphen_unit_eq: "hyphen_unit = (\<lambda>u. u = 0x2D)"
  by (simp add: hyphen_unit_def fun_eq_iff)

lemma slugify16_steps: "slugify16 tab t = slugify_spec16 tab t"
  unfolding slugify16_def slugify_spec16_def kept16_classes replace_class16_filter
    replace_plus16_squeeze trim16_strip hyphen_unit_eq ..

lemma toLowerCase16_set:
  "v \<in> set (toLowerCase16 tab s) \<Longrightarrow> \<exists>i < length s. v \<in> set (lower_at tab s i)"
  by (auto simp: toLowerCase16_def)

lemma unat_plus_32: "unat u \<le> 222 \<Longrightarrow> unat (u + 32 :: u16) = unat u + 32"
proof -
  assume "unat u \<le> 222"
  then have "unat u + unat (32 :: u16) < 2 ^ LENGTH(16)" by simp
  then have "unat (u + 32) = unat u + unat (32 :: u16)" by (simp only: unat_add_lem)
  then show ?thesis by simp
qed

lemma lower_at_no_capital:
  assumes "no_capitals tab" and "i < length s" and "v \<in> set (lower_at tab s i)"
  shows "\<not> (65 \<le> unat v \<and> unat v \<le> 90)"
proof -
  have tab: "\<forall>w \<in> set (tab s i). \<not> (65 \<le> unat w \<and> unat w \<le> 90)"
    if "256 \<le> unat (s ! i)"
    using assms(1,2) that by (simp add: no_capitals_def)
  show ?thesis
  proof (cases "unat (s ! i) < 256")
    case True
    then show ?thesis
      using assms(3) unfolding lower_at_def by (auto simp: unat_plus_32 split: if_splits)
  next
    case False
    then have "\<forall>w \<in> set (tab s i). \<not> (65 \<le> unat w \<and> unat w \<le> 90)"
      using tab by simp
    then show ?thesis
      using assms(3) False unfolding lower_at_def by (auto split: if_splits)
  qed
qed

lemma lowered_kept_slug16:
  assumes "no_capitals tab" and "v \<in> set (toLowerCase16 tab s)"
    and "kept16 v" and "\<not> space_unit v"
  shows "slug_unit v"
proof -
  obtain i where "i < length s" and "v \<in> set (lower_at tab s i)"
    using assms(2) toLowerCase16_set by blast
  then have "\<not> (65 \<le> unat v \<and> unat v \<le> 90)"
    using assms(1) lower_at_no_capital by blast
  then show ?thesis using assms(3,4) by (auto simp: kept16_def slug_unit_def)
qed

lemma strip_front_set: "set (strip_front s) \<subseteq> set s"
  using set_dropWhileD by (fastforce simp: strip_front_dropWhile)

lemma strip_back_set: "set (strip_back s) \<subseteq> set s"
  using set_dropWhileD by (fastforce simp: strip_back_rev)

lemma squeeze16_Cons_not: "\<not> P b \<Longrightarrow> squeeze16 P (b # us) = b # squeeze16 P us"
  by (cases us) auto

lemma squeeze16_Nil: "(squeeze16 P xs = []) = (xs = [])"
  by (induction P xs rule: squeeze16.induct) auto

lemma squeeze16_set: "x \<in> set (squeeze16 P xs) \<Longrightarrow> x = 0x2D \<or> (x \<in> set xs \<and> \<not> P x)"
  by (induction P xs rule: squeeze16.induct) (auto split: if_splits)

lemma squeeze16_id: "\<forall>u \<in> set xs. \<not> P u \<Longrightarrow> squeeze16 P xs = xs"
  by (induction P xs rule: squeeze16.induct) auto

lemma squeeze16_hyphen_idem:
  "squeeze16 (\<lambda>u. u = 0x2D) (squeeze16 (\<lambda>u. u = 0x2D) xs) = squeeze16 (\<lambda>u. u = 0x2D) xs"
proof (induction "\<lambda>u :: u16. u = 0x2D" xs rule: squeeze16.induct)
  case 1
  then show ?case by simp
next
  case (2 a)
  then show ?case by simp
next
  case (3 a b us)
  let ?H = "\<lambda>u :: u16. u = 0x2D"
  show ?case
  proof (cases "a = 0x2D \<and> b = 0x2D")
    case True
    with 3 show ?thesis by simp
  next
    case False
    then have ih: "squeeze16 ?H (squeeze16 ?H (b # us)) = squeeze16 ?H (b # us)"
      using 3(2) by simp
    show ?thesis
    proof (cases "a = 0x2D")
      case True
      with False have nb: "b \<noteq> 0x2D" by simp
      have "squeeze16 ?H (a # b # us) = 0x2D # b # squeeze16 ?H us"
        using True nb by (simp add: squeeze16_Cons_not)
      moreover have "squeeze16 ?H (0x2D # b # squeeze16 ?H us)
          = 0x2D # b # squeeze16 ?H (squeeze16 ?H us)"
        using nb by (simp add: squeeze16_Cons_not)
      moreover have "squeeze16 ?H (squeeze16 ?H us) = squeeze16 ?H us"
        using ih nb by (simp add: squeeze16_Cons_not)
      ultimately show ?thesis by simp
    next
      case na: False
      have "squeeze16 ?H (a # b # us) = a # squeeze16 ?H (b # us)"
        using na by (simp add: squeeze16_Cons_not)
      moreover have "squeeze16 ?H (a # squeeze16 ?H (b # us))
          = a # squeeze16 ?H (squeeze16 ?H (b # us))"
        using na by (simp add: squeeze16_Cons_not)
      ultimately show ?thesis using ih by simp
    qed
  qed
qed

lemma squeeze16_no_run: "\<not> hyphen_run16 (squeeze16 (\<lambda>u. u = 0x2D) xs)"
proof (induction "\<lambda>u :: u16. u = 0x2D" xs rule: squeeze16.induct)
  case 1
  then show ?case by simp
next
  case (2 a)
  then show ?case by simp
next
  case (3 a b us)
  let ?H = "\<lambda>u :: u16. u = 0x2D"
  show ?case
  proof (cases "a = 0x2D \<and> b = 0x2D")
    case True
    with 3 show ?thesis by simp
  next
    case False
    then have ih: "\<not> hyphen_run16 (squeeze16 ?H (b # us))" using 3(2) by simp
    obtain h rest where hr: "squeeze16 ?H (b # us) = h # rest"
      using squeeze16_Nil [of ?H "b # us"] by (cases "squeeze16 ?H (b # us)") auto
    show ?thesis
    proof (cases "a = 0x2D")
      case True
      with False have nb: "b \<noteq> 0x2D" by simp
      then have "h = b" using hr by (simp add: squeeze16_Cons_not)
      with nb ih hr True False show ?thesis by simp
    next
      case na: False
      with ih hr show ?thesis by simp
    qed
  qed
qed

lemma slugify16_units:
  assumes "no_capitals tab" and "v \<in> set (slugify16 tab t)"
  shows "slug_unit v"
proof -
  let ?s2 = "filter kept16 (toLowerCase16 tab t)"
  let ?s3 = "strip_back (strip_front ?s2)"
  have "v \<in> set (squeeze16 (\<lambda>u. u = 0x2D) (squeeze16 space_unit ?s3))"
    using assms(2) by (simp add: slugify16_steps slugify_spec16_def)
  then have "v = 0x2D \<or> v \<in> set (squeeze16 space_unit ?s3)"
    using squeeze16_set by fastforce
  then have "v = 0x2D \<or> (v \<in> set ?s3 \<and> \<not> space_unit v)"
    using squeeze16_set by fastforce
  then have "v = 0x2D \<or> (v \<in> set ?s2 \<and> \<not> space_unit v)"
    using strip_back_set strip_front_set by fastforce
  then show ?thesis
  proof
    assume "v = 0x2D"
    then show ?thesis by (simp add: slug_unit_def)
  next
    assume "v \<in> set ?s2 \<and> \<not> space_unit v"
    then show ?thesis using assms(1) lowered_kept_slug16 by auto
  qed
qed

lemma concat_singletons: "concat (map (\<lambda>i. [f i]) xs) = map f xs"
  by (induction xs) auto

lemma slug_unit_lower_at:
  assumes "slug_unit (s ! i)"
  shows "lower_at tab s i = [s ! i]"
proof -
  have "unat (s ! i) < 256 \<and> \<not> (65 \<le> unat (s ! i) \<and> unat (s ! i) \<le> 90)
      \<and> \<not> (192 \<le> unat (s ! i))"
    using assms by (auto simp: slug_unit_def unit_eq_unat)
  then show ?thesis by (simp add: lower_at_def)
qed

lemma slug_string_lower:
  assumes "\<forall>u \<in> set x. slug_unit u"
  shows "toLowerCase16 tab x = x"
proof -
  have m: "map (lower_at tab x) [0..<length x] = map (\<lambda>i. [x ! i]) [0..<length x]"
    using assms by (intro map_cong) (auto simp: slug_unit_lower_at)
  have "toLowerCase16 tab x = map ((!) x) [0..<length x]"
    by (simp only: toLowerCase16_def m concat_singletons)
  then show ?thesis by (simp add: map_nth)
qed

lemma slug_unit_kept: "slug_unit u \<Longrightarrow> kept16 u"
  by (auto simp: slug_unit_def kept16_def)

lemma slug_unit_not_space: "slug_unit u \<Longrightarrow> \<not> space_unit u"
  by (auto simp: slug_unit_def space_unit_def unit_eq_unat)

lemma dropWhile_nothing: "\<forall>u \<in> set xs. \<not> P u \<Longrightarrow> dropWhile P xs = xs"
  by (cases xs) auto

lemma slug_string_fixed16:
  assumes "\<forall>u \<in> set x. slug_unit u"
  shows "squeeze16 space_unit (strip_back (strip_front (filter kept16 (toLowerCase16 tab x)))) = x"
proof -
  have 1: "toLowerCase16 tab x = x" using assms by (rule slug_string_lower)
  have 2: "filter kept16 x = x" using assms by (simp add: slug_unit_kept)
  have ns: "\<forall>u \<in> set x. \<not> space_unit u" using assms slug_unit_not_space by blast
  then have 3: "strip_back (strip_front x) = x"
    by (simp add: strip_back_rev strip_front_dropWhile dropWhile_nothing)
  have 4: "squeeze16 space_unit x = x" using ns by (rule squeeze16_id)
  show ?thesis by (simp add: 1 2 3 4)
qed

subsection \<open>The strings of code units below 256 among all strings\<close>

lemma unat_unit_of: "unat (unit_of c) = code c"
proof -
  have "code c < 2 ^ LENGTH(16)" using code_less [of c] by simp
  then show ?thesis by (simp add: unit_of_def unat_of_nat)
qed

lemma word_unit_of: "word_unit (unit_of c) = word_char c"
  by (simp add: word_unit_def word_char_def unat_unit_of)

lemma space_unit_of: "space_unit (unit_of c) = space_char c"
  using code_less [of c] by (auto simp: space_unit_def space_char_def unat_unit_of)

lemma hyphen_unit_of: "hyphen_unit (unit_of c) = hyphen c"
  by (simp add: hyphen_unit_def hyphen_def unit_eq_unat unat_unit_of code_hyphen)

lemma lower_at_ustr:
  assumes "i < length t"
  shows "lower_at tab (ustr t) i = [unit_of (lower_unit (t ! i))]"
proof -
  let ?c = "t ! i"
  have n: "ustr t ! i = unit_of ?c" using assms by (simp add: ustr_def)
  show ?thesis
  proof (cases "(65 \<le> code ?c \<and> code ?c \<le> 90) \<or> (192 \<le> code ?c \<and> code ?c \<le> 222 \<and> code ?c \<noteq> 215)")
    case True
    then have "code ?c \<le> 222" by auto
    then have "unat (unit_of ?c + 32) = code ?c + 32"
      by (simp add: unat_plus_32 unat_unit_of)
    moreover have "unat (unit_of (char_of (code ?c + 32))) = code ?c + 32"
      using \<open>code ?c \<le> 222\<close> by (simp add: unat_unit_of code_char_of)
    ultimately have "unit_of ?c + 32 = unit_of (char_of (code ?c + 32))"
      by (simp add: word_unat_eq_iff)
    then show ?thesis using True by (simp add: lower_at_def n unat_unit_of lower_unit_def)
  next
    case False
    then show ?thesis
      using code_less [of ?c] by (auto simp: lower_at_def n unat_unit_of lower_unit_def)
  qed
qed

lemma length_ustr: "length (ustr t) = length t"
  by (simp add: ustr_def)

lemma toLowerCase16_ustr: "toLowerCase16 tab (ustr t) = ustr (toLowerCase t)"
proof -
  have m: "map (lower_at tab (ustr t)) [0..<length (ustr t)]
      = map (\<lambda>i. [unit_of (lower_unit (t ! i))]) [0..<length (ustr t)]"
    by (intro map_cong refl) (simp add: length_ustr lower_at_ustr)
  have "toLowerCase16 tab (ustr t) = map (\<lambda>i. unit_of (lower_unit (t ! i))) [0..<length (ustr t)]"
    by (simp only: toLowerCase16_def m concat_singletons)
  also have "\<dots> = map (\<lambda>c. unit_of (lower_unit c)) (map ((!) t) [0..<length t])"
    by (simp add: ustr_def)
  also have "\<dots> = ustr (toLowerCase t)"
    by (simp only: map_nth) (simp add: ustr_def toLowerCase_def)
  finally show ?thesis .
qed

lemma replace_class16_ustr:
  assumes "\<And>c. C' (unit_of c) = C c"
  shows "replace_class16 C' (ustr r) (ustr s) = ustr (replace_class C r s)"
  by (induction s) (simp_all add: ustr_def assms)

lemma dropWhile_ustr:
  assumes "\<And>c. C' (unit_of c) = C c"
  shows "dropWhile C' (ustr s) = ustr (dropWhile C s)"
  by (induction s) (simp_all add: ustr_def assms)

lemma replace_plus16_ustr:
  assumes "\<And>c. C' (unit_of c) = C c"
  shows "replace_plus16 C' (ustr r) (ustr s) = ustr (replace_plus C r s)"
  using assms
proof (induction C r s rule: replace_plus.induct)
  case (1 C r)
  then show ?case by (simp add: ustr_def)
next
  case (2 C r c cs)
  have p: "C' (unit_of x) = C x" for x by (rule "2.prems")
  have d: "dropWhile C' (ustr cs) = ustr (dropWhile C cs)"
    by (rule dropWhile_ustr) (rule p)
  have u: "ustr (c # cs) = unit_of c # ustr cs" by (simp add: ustr_def)
  show ?case
  proof (cases "C c")
    case True
    then have "replace_plus16 C' (ustr r) (ustr (dropWhile C cs)) = ustr (replace_plus C r (dropWhile C cs))"
      using "2.IH"(1) p by blast
    then show ?thesis using True by (simp add: u p d) (simp add: ustr_def)
  next
    case False
    then have "replace_plus16 C' (ustr r) (ustr cs) = ustr (replace_plus C r cs)"
      using "2.IH"(2) p by blast
    then show ?thesis using False by (simp add: u p) (simp add: ustr_def)
  qed
qed

lemma trim16_ustr: "trim16 (ustr s) = ustr (trim s)"
proof -
  have d: "dropWhile space_unit (ustr x) = ustr (dropWhile space_char x)" for x
    by (rule dropWhile_ustr) (rule space_unit_of)
  have r: "rev (ustr x) = ustr (rev x)" for x by (simp add: ustr_def rev_map)
  show ?thesis by (simp only: trim16_def trim_def d r)
qed

lemma ustr_hyphen: "ustr ''-'' = [0x2D]"
  by (simp add: ustr_def unit_of_def code_def)

lemma slugify16_ustr: "slugify16 tab (ustr t) = ustr (slugify t)"
proof -
  have e: "ustr '''' = []" by (simp add: ustr_def)
  have "replace_class16 (\<lambda>u. \<not> (word_unit u \<or> space_unit u \<or> hyphen_unit u)) (ustr '''') (ustr x)
      = ustr (replace_class (\<lambda>c. \<not> (word_char c \<or> space_char c \<or> hyphen c)) '''' x)" for x
    by (rule replace_class16_ustr) (simp add: word_unit_of space_unit_of hyphen_unit_of)
  then have a: "replace_class16 (\<lambda>u. \<not> (word_unit u \<or> space_unit u \<or> hyphen_unit u)) [] (ustr x)
      = ustr (replace_class (\<lambda>c. \<not> (word_char c \<or> space_char c \<or> hyphen c)) '''' x)" for x
    by (simp only: e)
  have "replace_plus16 space_unit (ustr ''-'') (ustr x) = ustr (replace_plus space_char ''-'' x)" for x
    by (rule replace_plus16_ustr) (rule space_unit_of)
  then have b: "replace_plus16 space_unit [0x2D] (ustr x) = ustr (replace_plus space_char ''-'' x)" for x
    by (simp only: ustr_hyphen)
  have "replace_plus16 hyphen_unit (ustr ''-'') (ustr x) = ustr (replace_plus hyphen ''-'' x)" for x
    by (rule replace_plus16_ustr) (rule hyphen_unit_of)
  then have c: "replace_plus16 hyphen_unit [0x2D] (ustr x) = ustr (replace_plus hyphen ''-'' x)" for x
    by (simp only: ustr_hyphen)
  show ?thesis
    by (simp only: slugify16_def slugify_def toLowerCase16_ustr a trim16_ustr b c)
qed

section \<open>Lemmas about the loop\<close>

lemma items_loop_foldl:
  "items_loop e d cn xs st = foldl (step e d) st (map (Pair cn) xs)"
  by (induction xs arbitrary: st) (simp_all add: step_def)

lemma categories_loop_foldl:
  "categories_loop e d cats st = foldl (step e d) st (pairs cats)"
  by (induction cats arbitrary: st) (simp_all add: pairs_def items_loop_foldl)

lemma find_slug: "(find (\<lambda>a. slug a = s) xs = None) = (s \<notin> slug ` set xs)"
  by (auto simp: find_None_iff)

lemma step_skip:
  "slugify (snd p) \<in> slug ` set (articlesList st) \<Longrightarrow>
   step e d st p = st\<lparr> out := out st @ [Skipping (slugify (snd p))] \<rparr>"
  by (simp add: step_def item_body_def find_slug Let_def)

lemma step_new:
  assumes "slugify (snd p) \<notin> slug ` set (articlesList st)"
  shows "step e d st p =
           st\<lparr> files := (files st)(slugify (snd p) @ ''.html'' \<mapsto>
                   articleHTML (build_meta e d (fst p) (snd p) (slugify (snd p)) st)
                     (buildRecipe (snd p)) (year e)),
               out := out st @ [Wrote (slugify (snd p) @ ''.html'')],
               articlesList := articlesList st @
                   [index_entry (build_meta e d (fst p) (snd p) (slugify (snd p)) st)],
               clock := clock st + 2, draws := draws st + 1 \<rparr>"
  using assms by (simp add: step_def item_body_def find_slug Let_def)

lemma entry_fields:
  "slug (index_entry (build_meta e d c t s st)) = s"
  "title (index_entry (build_meta e d c t s st)) = t"
  "category (index_entry (build_meta e d c t s st)) = c"
  "excerpt (index_entry (build_meta e d c t s st)) = take 140 (intro (buildRecipe t))"
  "path (index_entry (build_meta e d c t s st)) = ''articles/'' @ s @ ''.html''"
  by (simp_all add: index_entry_def build_meta_def)

lemma main_Malformed:
  "source_json fs = Some Malformed \<Longrightarrow>
   main e fs = (1, [Parse_failed], fs\<lparr> data_dir := True, articles_dir := True \<rparr>)"
  by (simp add: main_def)

lemma main_Source:
  assumes "effective_source fs = Source src"
  shows "main e fs =
     (0, out (loop_end e fs src) @ [Wrote_JSON (length (articlesList (loop_end e fs src))), Done],
      fs\<lparr> data_dir := True, articles_dir := True, source_json := Some (Source src),
          articles := files (loop_end e fs src),
          articles_json := Some (Parsed (Some (now e (clock (loop_end e fs src))))
                                  (Some (articlesList (loop_end e fs src)))) \<rparr>)"
  using assms
  by (auto simp: main_def loop_end_def effective_source_def Let_def categories_loop_foldl initial_state_def
      index_list_def src_domain_def src_categories_def split: option.splits source_file.splits)

lemma step_list:
  "articlesList (step e d st p) =
     (if slugify (snd p) \<in> slug ` set (articlesList st) then articlesList st
      else articlesList st @ [index_entry (build_meta e d (fst p) (snd p) (slugify (snd p)) st)])"
  by (simp add: step_skip step_new)

lemma step_out:
  "out (step e d st p) =
     out st @ [if slugify (snd p) \<in> slug ` set (articlesList st) then Skipping (slugify (snd p))
               else Wrote (slugify (snd p) @ ''.html'')]"
  by (simp add: step_skip step_new)

lemma step_files:
  "files (step e d st p) =
     (if slugify (snd p) \<in> slug ` set (articlesList st) then files st
      else (files st)(slugify (snd p) @ ''.html'' \<mapsto>
             articleHTML (build_meta e d (fst p) (snd p) (slugify (snd p)) st)
               (buildRecipe (snd p)) (year e)))"
  by (simp add: step_skip step_new)

lemma step_slugs:
  "slug ` set (articlesList (step e d st p)) = insert (slugify (snd p)) (slug ` set (articlesList st))"
  by (auto simp: step_list entry_fields)

lemma loop_slugs:
  "slug ` set (articlesList (foldl (step e d) st ps)) =
     slug ` set (articlesList st) \<union> (\<lambda>p. slugify (snd p)) ` set ps"
  by (induction ps arbitrary: st) (auto simp: step_slugs)

lemma loop_all_skip:
  "\<forall>p \<in> set ps. slugify (snd p) \<in> slug ` set (articlesList st) \<Longrightarrow>
   foldl (step e d) st ps = st\<lparr> out := out st @ map (\<lambda>p. Skipping (slugify (snd p))) ps \<rparr>"
  by (induction ps arbitrary: st) (simp_all add: step_skip)

lemma written_append: "written (xs @ ys) = written xs @ written ys"
  by (induction xs rule: written.induct) simp_all

lemma written_skips: "written (map (\<lambda>p. Skipping (f p)) ps) = []"
  by (induction ps) simp_all

lemma loop_distinct:
  "distinct (map slug (articlesList st)) \<Longrightarrow>
   distinct (map slug (articlesList (foldl (step e d) st ps)))"
proof (induction ps arbitrary: st)
  case Nil
  then show ?case by simp
next
  case (Cons p ps)
  have "distinct (map slug (articlesList (step e d st p)))"
    using Cons.prems by (simp add: step_list entry_fields)
  then show ?case using Cons.IH by simp
qed

lemma loop_excerpt:
  "\<forall>r \<in> set (articlesList st). excerpt_ok r \<Longrightarrow>
   \<forall>r \<in> set (articlesList (foldl (step e d) st ps)). excerpt_ok r"
proof (induction ps arbitrary: st)
  case Nil
  then show ?case by simp
next
  case (Cons p ps)
  have "excerpt_ok (index_entry (build_meta e d (fst p) (snd p) (slugify (snd p)) st))"
    by (simp add: excerpt_ok_def entry_fields take_is_prefix)
  then have "\<forall>r \<in> set (articlesList (step e d st p)). excerpt_ok r"
    using Cons.prems by (simp add: step_list)
  then show ?case using Cons.IH by simp
qed

lemma loop_list_grows:
  "\<exists>news. articlesList (foldl (step e d) st ps) = articlesList st @ news"
proof (induction ps arbitrary: st)
  case Nil
  then show ?case by simp
next
  case (Cons p ps)
  obtain n1 where "articlesList (foldl (step e d) (step e d st p) ps) = articlesList (step e d st p) @ n1"
    using Cons.IH by blast
  then show ?case by (auto simp: step_list)
qed

lemma loop_written:
  "written (out (foldl (step e d) st ps)) =
     written (out st) @
     map (\<lambda>r. slug r @ ''.html'') (drop (length (articlesList st)) (articlesList (foldl (step e d) st ps)))"
proof (induction ps arbitrary: st)
  case Nil
  then show ?case by simp
next
  case (Cons p ps)
  let ?st1 = "step e d st p"
  obtain n1 where n1: "articlesList (foldl (step e d) ?st1 ps) = articlesList ?st1 @ n1"
    using loop_list_grows by blast
  have ih: "written (out (foldl (step e d) ?st1 ps)) = written (out ?st1) @ map (\<lambda>r. slug r @ ''.html'') n1"
    using Cons.IH [of ?st1] n1 by simp
  show ?case
  proof (cases "slugify (snd p) \<in> slug ` set (articlesList st)")
    case True
    then show ?thesis using ih n1 by (simp add: step_list step_out written_append)
  next
    case False
    then show ?thesis using ih n1 by (simp add: step_list step_out written_append entry_fields)
  qed
qed

lemma loop_filter_stable:
  "s \<in> slug ` set (articlesList st) \<Longrightarrow>
   filter (\<lambda>r. slug r = s) (articlesList (foldl (step e d) st ps)) =
   filter (\<lambda>r. slug r = s) (articlesList st)"
proof (induction ps arbitrary: st)
  case Nil
  then show ?case by simp
next
  case (Cons p ps)
  have a: "s \<in> slug ` set (articlesList (step e d st p))"
    using Cons.prems by (simp add: step_slugs)
  have b: "filter (\<lambda>r. slug r = s) (articlesList (step e d st p)) = filter (\<lambda>r. slug r = s) (articlesList st)"
    using Cons.prems by (auto simp: step_list entry_fields)
  show ?case using Cons.IH [OF a] b by simp
qed

lemma loop_skip_count:
  "s \<in> slug ` set (articlesList st) \<Longrightarrow>
   length (filter (\<lambda>ev. ev = Skipping s) (out (foldl (step e d) st ps))) =
   length (filter (\<lambda>ev. ev = Skipping s) (out st)) + length (filter (\<lambda>p. slugify (snd p) = s) ps)"
proof (induction ps arbitrary: st)
  case Nil
  then show ?case by simp
next
  case (Cons p ps)
  have a: "s \<in> slug ` set (articlesList (step e d st p))"
    using Cons.prems by (simp add: step_slugs)
  have b: "length (filter (\<lambda>ev. ev = Skipping s) (out (step e d st p))) =
      length (filter (\<lambda>ev. ev = Skipping s) (out st)) + (if slugify (snd p) = s then 1 else 0)"
    using Cons.prems by (auto simp: step_out)
  show ?case using Cons.IH [OF a] b by simp
qed

lemma loop_no_skip:
  "\<forall>p \<in> set ps. slugify (snd p) \<noteq> s \<Longrightarrow>
   filter (\<lambda>ev. ev = Skipping s) (out (foldl (step e d) st ps)) = filter (\<lambda>ev. ev = Skipping s) (out st)"
  by (induction ps arbitrary: st) (auto simp: step_out)

lemma loop_files_mono:
  "files st k = Some pg \<Longrightarrow> k \<in> (\<lambda>r. slug r @ ''.html'') ` set (articlesList st) \<Longrightarrow>
   files (foldl (step e d) st ps) k = Some pg"
proof (induction ps arbitrary: st)
  case Nil
  then show ?case by simp
next
  case (Cons p ps)
  have "slugify (snd p) \<notin> slug ` set (articlesList st) \<Longrightarrow> k \<noteq> slugify (snd p) @ ''.html''"
    using Cons.prems(2) by force
  then have a: "files (step e d st p) k = Some pg"
    using Cons.prems(1) by (auto simp: step_files)
  have b: "k \<in> (\<lambda>r. slug r @ ''.html'') ` set (articlesList (step e d st p))"
    using Cons.prems by (auto simp: step_list)
  show ?case using Cons.IH [OF a b] by simp
qed

lemma loop_out_grows:
  "\<exists>evs. out (foldl (step e d) st ps) = out st @ evs"
proof (induction ps arbitrary: st)
  case Nil
  then show ?case by simp
next
  case (Cons p ps)
  obtain e1 where "out (foldl (step e d) (step e d st p) ps) = out (step e d st p) @ e1"
    using Cons.IH by blast
  then show ?case by (simp add: step_out)
qed

lemma lower_special:
  "toLowerCase16 tab [0x212A, 0x2003, 0x130, 0x2D, 0x2D, 0x41]
     = [0x6B, 0x2003, 0x69, 0x307, 0x2D, 0x2D, 0x61]"
proof -
  have u: "[0..<length [0x212A, 0x2003, 0x130, 0x2D, 0x2D, 0x41 :: u16]] = [0, 1, 2, 3, 4, 5]"
    by (simp add: upt_rec)
  show ?thesis
    unfolding toLowerCase16_def u by (simp add: lower_at_def space_unit_def)
qed

lemma slugify16_special:
  "slugify16 tab [0x212A, 0x2003, 0x130, 0x2D, 0x2D, 0x41] = [0x6B, 0x2D, 0x69, 0x2D, 0x61]"
  unfolding slugify16_steps slugify_spec16_def lower_special
  by (simp add: kept16_def space_unit_def)

lemma ustr_k_i_a: "ustr ''k-i-a'' = [0x6B, 0x2D, 0x69, 0x2D, 0x61]"
  by (simp add: ustr_def unit_of_def code_def)

lemma sample_table_no_capitals: "no_capitals sample_table"
  by (auto simp: no_capitals_def sample_table_def)

section \<open>Properties of slugify\<close>

text \<open>
  C1, as amended. \<open>slugify\<close> is a function of the title alone (and of the case data of
  the platform). For every title, a string of any UTF-16 code units, it does what the five
  steps say when "letter" is read as ASCII letter and "whitespace" as the white space of
  JavaScript: lowercase; remove every character that is not an ASCII letter, a digit, an
  underscore, whitespace or a hyphen; trim; one hyphen for each run of whitespace; one
  hyphen for each run of hyphens. In particular "Cheap Chicken Rice" gives
  "cheap-chicken-rice" and "Beans & Pasta!" gives "beans-pasta"; "  Tuna -- Wrap  " is
  trimmed and gives "tuna-wrap"; and the Kelvin sign, an em space, U+0130, two hyphens
  and "A" give "k-i-a".
\<close>

theorem slugify16_refines_spec:
  "slugify16 tab t = slugify_spec16 tab t
   \<and> slugify16 tab (ustr ''Cheap Chicken Rice'') = ustr ''cheap-chicken-rice''
   \<and> slugify16 tab (ustr ''Beans & Pasta!'') = ustr ''beans-pasta''
   \<and> slugify16 tab (ustr ''  Tuna -- Wrap  '') = ustr ''tuna-wrap''
   \<and> slugify16 tab [0x212A, 0x2003, 0x130, 0x2D, 0x2D, 0x41] = ustr ''k-i-a''"
proof -
  have 1: "slugify ''Cheap Chicken Rice'' = ''cheap-chicken-rice''" by code_simp
  have 2: "slugify ''Beans & Pasta!'' = ''beans-pasta''" by code_simp
  have 3: "slugify ''  Tuna -- Wrap  '' = ''tuna-wrap''" by code_simp
  show ?thesis
    by (simp only: slugify16_steps [symmetric] slugify16_ustr 1 2 3 slugify16_special ustr_k_i_a)
qed

text \<open>
  C1 as it is worded fails on a letter outside ASCII. Take the title "Caf" followed by
  U+00E9, the letter e with an acute accent: with every letter kept the slug would be
  "caf" followed by U+00E9, and \<open>slugify\<close> gives "caf", because \<open>\w\<close> matches ASCII
  letters only.
\<close>

theorem slugify_drops_accented_letter:
  "slugify (''Caf'' @ [CHR 0xE9]) = ''caf''
   \<and> slugify_spec letter (''Caf'' @ [CHR 0xE9]) = ''caf'' @ [CHR 0xE9]
   \<and> slugify16 sample_table (ustr (''Caf'' @ [CHR 0xE9])) = ustr ''caf''"
proof -
  have "slugify (''Caf'' @ [CHR 0xE9]) = ''caf''
      \<and> slugify_spec letter (''Caf'' @ [CHR 0xE9]) = ''caf'' @ [CHR 0xE9]"
    by code_simp
  then show ?thesis by (simp only: slugify16_ustr)
qed

text \<open>
  C9. \<open>slugify\<close> is idempotent on every string of UTF-16 code units: a slug is made of
  lowercase ASCII letters, digits, underscores and hyphens only, so it has no whitespace,
  and it has no run of hyphens; slugifying it again changes nothing. The case data is any
  that gives no ASCII capital letter as part of a lower case, as the Unicode data does.
\<close>

theorem slugify16_idempotent:
  assumes "no_capitals tab"
  shows "slugify16 tab (slugify16 tab t) = slugify16 tab t
   \<and> list_all slug_unit (slugify16 tab t)
   \<and> list_all (\<lambda>u. \<not> space_unit u) (slugify16 tab t)
   \<and> \<not> hyphen_run16 (slugify16 tab t)"
proof -
  let ?y = "squeeze16 space_unit (strip_back (strip_front (filter kept16 (toLowerCase16 tab t))))"
  let ?x = "slugify16 tab t"
  have x: "?x = squeeze16 (\<lambda>u. u = 0x2D) ?y"
    by (simp add: slugify16_steps slugify_spec16_def)
  have units: "\<forall>u \<in> set ?x. slug_unit u"
    using assms slugify16_units by blast
  then have "squeeze16 space_unit (strip_back (strip_front (filter kept16 (toLowerCase16 tab ?x)))) = ?x"
    by (rule slug_string_fixed16)
  then have "slugify16 tab ?x = squeeze16 (\<lambda>u. u = 0x2D) ?x"
    by (simp add: slugify16_steps [of tab ?x] slugify_spec16_def)
  also have "\<dots> = squeeze16 (\<lambda>u. u = 0x2D) ?y"
    by (simp only: x squeeze16_hyphen_idem)
  finally have idem: "slugify16 tab ?x = ?x" by (simp only: x)
  have a: "list_all slug_unit ?x" using units by (simp add: list_all_iff)
  have b: "list_all (\<lambda>u. \<not> space_unit u) ?x"
    using units slug_unit_not_space by (auto simp: list_all_iff)
  have c: "\<not> hyphen_run16 ?x" by (simp only: x squeeze16_no_run) simp
  from idem a b c show ?thesis by blast
qed

theorem slugify16_idempotent_witness:
  "no_capitals sample_table
   \<and> slugify16 sample_table [0x212A, 0x2003, 0x130, 0x2D, 0x2D, 0x41] = ustr ''k-i-a''
   \<and> slugify16 sample_table (ustr ''k-i-a'') = ustr ''k-i-a''
   \<and> list_all slug_unit (ustr ''k-i-a'')"
proof -
  let ?t = "[0x212A, 0x2003, 0x130, 0x2D, 0x2D, 0x41] :: u16 list"
  have e: "slugify16 sample_table ?t = ustr ''k-i-a''"
    by (simp only: slugify16_special ustr_k_i_a)
  note th = slugify16_idempotent [OF sample_table_no_capitals, of ?t]
  from th have "slugify16 sample_table (slugify16 sample_table ?t) = slugify16 sample_table ?t"
    by blast
  then have i: "slugify16 sample_table (ustr ''k-i-a'') = ustr ''k-i-a''"
    by (simp only: e)
  from th have "list_all slug_unit (slugify16 sample_table ?t)" by blast
  then have u: "list_all slug_unit (ustr ''k-i-a'')" by (simp only: e)
  from sample_table_no_capitals e i u show ?thesis by blast
qed

section \<open>Lemmas about a run\<close>

lemma effective_source_cases:
  "source_json fs = Some Malformed \<or> (\<exists>src. effective_source fs = Source src)"
  by (cases "source_json fs") (auto simp: effective_source_def intro: source_file.exhaust)

lemma effective_source_Some: "source_json fs = Some c \<Longrightarrow> effective_source fs = c"
  by (simp add: effective_source_def)

lemma run_Malformed:
  assumes "source_json fs = Some Malformed"
  shows "exit_status (main e fs) = 1"
    and "console (main e fs) = [Parse_failed]"
    and "final_fs (main e fs) = fs\<lparr> data_dir := True, articles_dir := True \<rparr>"
  using assms by (simp_all add: main_Malformed exit_status_def console_def final_fs_def)

lemma run_Source:
  assumes "effective_source fs = Source src"
  shows "exit_status (main e fs) = 0"
    and "console (main e fs) =
           out (loop_end e fs src) @ [Wrote_JSON (length (articlesList (loop_end e fs src))), Done]"
    and "index_list (final_fs (main e fs)) = articlesList (loop_end e fs src)"
    and "articles (final_fs (main e fs)) = files (loop_end e fs src)"
    and "source_json (final_fs (main e fs)) = Some (Source src)"
    and "articles_json (final_fs (main e fs)) =
           Some (Parsed (Some (now e (clock (loop_end e fs src))))
                        (Some (articlesList (loop_end e fs src))))"
  by (simp_all add: main_Source [OF assms] exit_status_def console_def final_fs_def
      index_list_def loadExistingIndex_def)

lemma initial_state_simps:
  "articlesList (initial_state fs) = index_list fs"
  "files (initial_state fs) = articles fs"
  "written (out (initial_state fs)) = []"
  "filter (\<lambda>ev. ev = Skipping s) (out (initial_state fs)) = []"
  "clock (initial_state fs) = 0"
  by (simp_all add: initial_state_def split: option.splits)

lemma loop_end_slugs:
  "slug ` set (articlesList (loop_end e fs src)) =
     slug ` set (index_list fs) \<union> (\<lambda>p. slugify (snd p)) ` set (pairs (src_categories src))"
  by (simp add: loop_end_def loop_slugs initial_state_simps)

lemma loop_end_grows: "\<exists>news. articlesList (loop_end e fs src) = index_list fs @ news"
  using loop_list_grows [of e "src_domain src" "initial_state fs"]
  by (simp add: loop_end_def initial_state_simps)

lemma loop_end_written:
  "written (out (loop_end e fs src)) =
     map (\<lambda>r. slug r @ ''.html'') (drop (length (index_list fs)) (articlesList (loop_end e fs src)))"
  using loop_written [of e "src_domain src" "initial_state fs"]
  by (simp add: loop_end_def initial_state_simps)

lemma run_written:
  assumes "effective_source fs = Source src"
  shows "written (console (main e fs)) =
     map (\<lambda>r. slug r @ ''.html'')
       (drop (length (index_list fs)) (index_list (final_fs (main e fs))))"
  by (simp add: run_Source [OF assms] written_append loop_end_written)

lemma run_distinct:
  assumes "distinct (map slug (index_list fs))"
  shows "distinct (map slug (index_list (final_fs (main e fs))))"
proof -
  consider "source_json fs = Some Malformed" | src where "effective_source fs = Source src"
    using effective_source_cases by blast
  then show ?thesis
  proof cases
    case 1
    then show ?thesis using assms by (simp add: run_Malformed index_list_def)
  next
    case 2
    have "distinct (map slug (articlesList (loop_end e fs src)))"
      unfolding loop_end_def using assms by (intro loop_distinct) (simp add: initial_state_simps)
    then show ?thesis by (simp add: run_Source [OF 2])
  qed
qed

lemma loop_news_excerpt:
  "\<exists>news. articlesList (foldl (step e d) st ps) = articlesList st @ news
     \<and> (\<forall>r \<in> set news. excerpt_ok r)"
proof (induction ps arbitrary: st)
  case Nil
  then show ?case by simp
next
  case (Cons p ps)
  obtain n1 where n1: "articlesList (foldl (step e d) (step e d st p) ps) = articlesList (step e d st p) @ n1"
    and ok1: "\<forall>r \<in> set n1. excerpt_ok r"
    using Cons.IH by blast
  have e0: "excerpt_ok (index_entry (build_meta e d (fst p) (snd p) (slugify (snd p)) st))"
    by (simp add: excerpt_ok_def entry_fields take_is_prefix)
  show ?case
  proof (cases "slugify (snd p) \<in> slug ` set (articlesList st)")
    case True
    then show ?thesis using n1 ok1 by (simp add: step_list)
  next
    case False
    then have "articlesList (foldl (step e d) st (p # ps)) =
        articlesList st @ (index_entry (build_meta e d (fst p) (snd p) (slugify (snd p)) st) # n1)"
      using n1 by (simp add: step_list)
    moreover have "\<forall>r \<in> set (index_entry (build_meta e d (fst p) (snd p) (slugify (snd p)) st) # n1). excerpt_ok r"
      using e0 ok1 by simp
    ultimately show ?thesis by blast
  qed
qed

lemma run_new_excerpt:
  "list_all excerpt_ok (drop (length (index_list fs)) (index_list (final_fs (main e fs))))"
proof -
  consider "source_json fs = Some Malformed" | src where "effective_source fs = Source src"
    using effective_source_cases by blast
  then show ?thesis
  proof cases
    case 1
    then show ?thesis by (simp add: run_Malformed index_list_def)
  next
    case 2
    obtain news where "articlesList (loop_end e fs src) = index_list fs @ news"
      and "\<forall>r \<in> set news. excerpt_ok r"
      using loop_news_excerpt [of e "src_domain src" "initial_state fs"]
      by (auto simp: loop_end_def initial_state_simps)
    then show ?thesis by (simp add: run_Source [OF 2] list_all_iff)
  qed
qed

lemma run_excerpt:
  assumes "list_all excerpt_ok (index_list fs)"
  shows "list_all excerpt_ok (index_list (final_fs (main e fs)))"
proof -
  consider "source_json fs = Some Malformed" | src where "effective_source fs = Source src"
    using effective_source_cases by blast
  then show ?thesis
  proof cases
    case 1
    then show ?thesis using assms by (simp add: run_Malformed index_list_def)
  next
    case 2
    have "\<forall>r \<in> set (articlesList (loop_end e fs src)). excerpt_ok r"
      unfolding loop_end_def using assms
      by (intro loop_excerpt) (simp add: initial_state_simps list_all_iff)
    then show ?thesis by (simp add: run_Source [OF 2] list_all_iff)
  qed
qed

lemma replay_distinct:
  "distinct (map slug (index_list fs)) \<Longrightarrow> distinct (map slug (index_list (replay acts fs)))"
proof (induction acts fs rule: replay.induct)
  case (1 fs)
  then show ?case by simp
next
  case (2 e rest fs)
  then show ?case by (simp add: run_distinct)
next
  case (3 f rest fs)
  then show ?case by (simp add: index_list_def)
qed

lemma replay_excerpt:
  "list_all excerpt_ok (index_list fs) \<Longrightarrow> list_all excerpt_ok (index_list (replay acts fs))"
proof (induction acts fs rule: replay.induct)
  case (1 fs)
  then show ?case by simp
next
  case (2 e rest fs)
  then show ?case by (simp add: run_excerpt)
next
  case (3 f rest fs)
  then show ?case by (simp add: index_list_def)
qed

text \<open>A run over items whose slugs are all in the index already.\<close>

lemma run_all_present:
  assumes "effective_source fs = Source src"
    and "(\<lambda>p. slugify (snd p)) ` set (pairs (src_categories src)) \<subseteq> slug ` set (index_list fs)"
  shows "index_list (final_fs (main e fs)) = index_list fs"
    and "articles (final_fs (main e fs)) = articles fs"
    and "written (console (main e fs)) = []"
proof -
  have "\<forall>p \<in> set (pairs (src_categories src)).
      slugify (snd p) \<in> slug ` set (articlesList (initial_state fs))"
    using assms(2) by (auto simp: initial_state_simps)
  then have le: "loop_end e fs src = (initial_state fs)
      \<lparr> out := out (initial_state fs) @ map (\<lambda>p. Skipping (slugify (snd p))) (pairs (src_categories src)) \<rparr>"
    unfolding loop_end_def by (rule loop_all_skip)
  show "index_list (final_fs (main e fs)) = index_list fs"
    by (simp add: run_Source [OF assms(1)] le initial_state_simps)
  show "articles (final_fs (main e fs)) = articles fs"
    by (simp add: run_Source [OF assms(1)] le initial_state_simps)
  show "written (console (main e fs)) = []"
    by (simp add: run_Source [OF assms(1)] le initial_state_simps written_append written_skips)
qed

text \<open>The first run over the configuration \<open>lunch_src\<close>, from an empty file system.\<close>

lemma lunch_first_run:
  "slug ` set (index_list (final_fs (main env0 (with_source lunch_src)))) = {''tuna-wrap''}"
proof -
  have src: "effective_source (with_source lunch_src) = Source lunch_src"
    by (simp add: effective_source_def with_source_def)
  have ps: "pairs (src_categories lunch_src) = [(''Lunch'', ''Tuna Wrap'')]"
    by (simp add: pairs_def src_categories_def lunch_src_def cat_name_def cat_items_def)
  have il: "index_list (with_source lunch_src) = []"
    by (simp add: index_list_def loadExistingIndex_def with_source_def fresh_fs_def)
  have sl: "slugify ''Tuna Wrap'' = ''tuna-wrap''" by code_simp
  show ?thesis by (simp add: run_Source(3) [OF src] loop_end_slugs ps il sl)
qed

section \<open>Properties of a run\<close>

text \<open>
  C2. Running the script again on the file system that a first run left, with the
  configuration unchanged, writes no article file and adds no record to the index: the
  articles directory and the list are the same after the second run as after the first, and
  the console of the second run reports no file written. The reason is that after a run
  over a configuration every slug of its items is in the list.
\<close>

theorem second_run_adds_nothing:
  "articles (final_fs (main e2 (final_fs (main e1 fs)))) = articles (final_fs (main e1 fs))
   \<and> index_list (final_fs (main e2 (final_fs (main e1 fs)))) = index_list (final_fs (main e1 fs))
   \<and> written (console (main e2 (final_fs (main e1 fs)))) = []
   \<and> (\<forall>src. effective_source fs = Source src \<longrightarrow>
         effective_source (final_fs (main e1 fs)) = Source src
         \<and> (\<lambda>p. slugify (snd p)) ` set (pairs (src_categories src))
             \<subseteq> slug ` set (index_list (final_fs (main e1 fs))))"
proof -
  let ?fs1 = "final_fs (main e1 fs)"
  consider "source_json fs = Some Malformed" | src where "effective_source fs = Source src"
    using effective_source_cases by blast
  then show ?thesis
  proof cases
    case 1
    then have fs1: "?fs1 = fs\<lparr> data_dir := True, articles_dir := True \<rparr>"
      by (simp add: run_Malformed)
    then have m1: "source_json ?fs1 = Some Malformed" using 1 by simp
    have f2: "final_fs (main e2 ?fs1) = ?fs1\<lparr> data_dir := True, articles_dir := True \<rparr>"
      by (rule run_Malformed(3) [OF m1])
    have c2: "console (main e2 ?fs1) = [Parse_failed]"
      by (rule run_Malformed(2) [OF m1])
    have ns: "\<forall>src. effective_source fs \<noteq> Source src"
      using 1 by (simp add: effective_source_def)
    show ?thesis unfolding f2 c2 using ns by (simp add: index_list_def)
  next
    case 2
    have src1: "effective_source ?fs1 = Source src"
      by (simp add: run_Source [OF 2] effective_source_def)
    have cover: "(\<lambda>p. slugify (snd p)) ` set (pairs (src_categories src))
        \<subseteq> slug ` set (index_list ?fs1)"
      by (simp add: run_Source [OF 2] loop_end_slugs)
    show ?thesis using run_all_present [OF src1 cover] src1 cover 2 by simp
  qed
qed

theorem second_run_adds_nothing_witness:
  "effective_source fresh_fs = Source defaultSrc
   \<and> articles (final_fs (main env1 (final_fs (main env0 fresh_fs))))
       = articles (final_fs (main env0 fresh_fs))
   \<and> index_list (final_fs (main env1 (final_fs (main env0 fresh_fs))))
       = index_list (final_fs (main env0 fresh_fs))
   \<and> written (console (main env1 (final_fs (main env0 fresh_fs)))) = []
   \<and> slugify ''Tuna Wrap'' \<in> slug ` set (index_list (final_fs (main env0 fresh_fs)))"
proof -
  have a: "effective_source fresh_fs = Source defaultSrc"
    by (simp add: effective_source_def fresh_fs_def)
  have b: "(''Budget Cooking'', ''Tuna Wrap'') \<in> set (pairs (src_categories defaultSrc))"
    by (simp add: pairs_def src_categories_def defaultSrc_def cat_name_def cat_items_def)
  from second_run_adds_nothing [of env1 env0 fresh_fs] a
  have "(\<lambda>p. slugify (snd p)) ` set (pairs (src_categories defaultSrc))
      \<subseteq> slug ` set (index_list (final_fs (main env0 fresh_fs)))"
    by blast
  with b have "slugify ''Tuna Wrap'' \<in> slug ` set (index_list (final_fs (main env0 fresh_fs)))"
    by force
  with second_run_adds_nothing [of env1 env0 fresh_fs] a show ?thesis by simp
qed

text \<open>
  C5. When the configuration file exists and does not parse, the run ends with exit status
  1 (not zero) and writes no file: the index file is what it was (absent if it was
  absent), the articles directory is what it was, the console reports no file written,
  and the configuration file is untouched. The two output directories have been ensured
  before the configuration is read.
\<close>

theorem malformed_config_aborts:
  assumes "source_json fs = Some Malformed"
  shows "exit_status (main e fs) = 1
   \<and> articles_json (final_fs (main e fs)) = articles_json fs
   \<and> articles (final_fs (main e fs)) = articles fs
   \<and> source_json (final_fs (main e fs)) = source_json fs
   \<and> written (console (main e fs)) = []
   \<and> final_fs (main e fs) = fs\<lparr> data_dir := True, articles_dir := True \<rparr>"
  by (simp add: run_Malformed [OF assms])

theorem malformed_config_aborts_witness:
  "source_json (fresh_fs\<lparr> source_json := Some Malformed \<rparr>) = Some Malformed
   \<and> exit_status (main env0 (fresh_fs\<lparr> source_json := Some Malformed \<rparr>)) = 1
   \<and> articles_json (final_fs (main env0 (fresh_fs\<lparr> source_json := Some Malformed \<rparr>))) = None
   \<and> articles (final_fs (main env0 (fresh_fs\<lparr> source_json := Some Malformed \<rparr>))) = Map.empty"
proof -
  have a: "source_json (fresh_fs\<lparr> source_json := Some Malformed \<rparr>) = Some Malformed" by simp
  from malformed_config_aborts [OF a, of env0] a show ?thesis
    by (simp add: fresh_fs_def)
qed

text \<open>
  C7. When the index file is missing, or does not parse, or parses to \<open>null\<close>, or parses
  to a value whose \<open>list\<close> is not an array, the previous list is empty and, the
  configuration being readable, the run goes on to exit status 0: it is the run that the
  same file system without an index file gives. (An unreadable configuration ends the
  run with status 1, see C5.)
\<close>

theorem unusable_index_is_tolerated:
  assumes "articles_json fs = None \<or> articles_json fs = Some Unparsable
      \<or> articles_json fs = Some Parsed_null \<or> articles_json fs = Some (Parsed t None)"
    and "source_json fs \<noteq> Some Malformed"
  shows "loadExistingIndex (articles_json fs) = []
   \<and> exit_status (main e fs) = 0
   \<and> main e fs = main e (fs\<lparr> articles_json := None \<rparr>)"
proof -
  have empty: "loadExistingIndex (articles_json fs) = []"
    using assms(1) by (auto simp: loadExistingIndex_def)
  obtain src where src: "effective_source fs = Source src"
    using assms(2) effective_source_cases by blast
  have src': "effective_source (fs\<lparr> articles_json := None \<rparr>) = Source src"
    using src by (simp add: effective_source_def)
  have "initial_state (fs\<lparr> articles_json := None \<rparr>) = initial_state fs"
    using empty by (simp add: initial_state_def index_list_def loadExistingIndex_def)
  then have "loop_end e (fs\<lparr> articles_json := None \<rparr>) src = loop_end e fs src"
    by (simp add: loop_end_def)
  then have "main e fs = main e (fs\<lparr> articles_json := None \<rparr>)"
    by (simp add: main_Source [OF src] main_Source [OF src'])
  with empty run_Source(1) [OF src, of e] show ?thesis by blast
qed

theorem unusable_index_is_tolerated_witness:
  "articles_json (fresh_fs\<lparr> articles_json := Some Unparsable \<rparr>) = Some Unparsable
   \<and> source_json (fresh_fs\<lparr> articles_json := Some Unparsable \<rparr>) = None
   \<and> exit_status (main env0 (fresh_fs\<lparr> articles_json := Some Unparsable \<rparr>)) = 0
   \<and> main env0 (fresh_fs\<lparr> articles_json := Some Unparsable \<rparr>) = main env0 fresh_fs"
proof -
  let ?fs = "fresh_fs\<lparr> articles_json := Some Unparsable \<rparr>"
  have a: "articles_json ?fs = None \<or> articles_json ?fs = Some Unparsable
      \<or> articles_json ?fs = Some Parsed_null \<or> articles_json ?fs = Some (Parsed None None)"
    by simp
  have s: "source_json ?fs = None" by (simp add: fresh_fs_def)
  then have b: "source_json ?fs \<noteq> Some Malformed" by simp
  have c: "fresh_fs\<lparr> articles_json := None \<rparr> = fresh_fs" by (simp add: fresh_fs_def)
  note th = unusable_index_is_tolerated [OF a b, of env0]
  from th have e0: "exit_status (main env0 ?fs) = 0" by blast
  from th have "main env0 ?fs = main env0 (?fs\<lparr> articles_json := None \<rparr>)" by blast
  then have eq: "main env0 ?fs = main env0 fresh_fs" using c by simp
  have "articles_json ?fs = Some Unparsable" by simp
  with s e0 eq show ?thesis by blast
qed

text \<open>
  C8, as amended. When the \<open>categories\<close> array of the configuration is empty, the run
  writes no article file, writes the index with the list that it loaded (the empty
  sequence when there is no usable previous index) and exits with status 0.
\<close>

theorem empty_categories_keep_the_list:
  assumes "source_json fs = Some (Source src)" and "categories src = Some []"
  shows "exit_status (main e fs) = 0
   \<and> articles (final_fs (main e fs)) = articles fs
   \<and> written (console (main e fs)) = []
   \<and> articles_json (final_fs (main e fs)) = Some (Parsed (Some (now e 0)) (Some (index_list fs)))
   \<and> console (main e fs) = [Wrote_JSON (length (index_list fs)), Done]"
proof -
  have src: "effective_source fs = Source src"
    using assms(1) by (simp add: effective_source_def)
  have "loop_end e fs src = initial_state fs"
    using assms(2) by (simp add: loop_end_def src_categories_def pairs_def)
  then show ?thesis
    using assms(1) by (simp add: run_Source [OF src] initial_state_def)
qed

theorem empty_categories_keep_the_list_witness:
  "source_json (with_source empty_src) = Some (Source empty_src)
   \<and> categories empty_src = Some []
   \<and> exit_status (main env0 (with_source empty_src)) = 0
   \<and> articles (final_fs (main env0 (with_source empty_src))) = Map.empty
   \<and> articles_json (final_fs (main env0 (with_source empty_src)))
       = Some (Parsed (Some 1700000000000) (Some []))"
proof -
  have a: "source_json (with_source empty_src) = Some (Source empty_src)"
    by (simp add: with_source_def)
  have b: "categories empty_src = Some []" by (simp add: empty_src_def)
  from empty_categories_keep_the_list [OF a b, of env0] a b show ?thesis
    by (simp add: with_source_def fresh_fs_def index_list_def loadExistingIndex_def env0_def)
qed

text \<open>
  C8 as it is worded fails when an index exists: after a first run over the item "Tuna
  Wrap", let the \<open>categories\<close> array be emptied. The list that the next run writes is the
  list of the first run, with the record of slug "tuna-wrap", and is not empty.
\<close>

theorem empty_categories_list_not_empty:
  "categories empty_src = Some []
   \<and> index_list (final_fs (main env1
        ((final_fs (main env0 (with_source lunch_src)))\<lparr> source_json := Some (Source empty_src) \<rparr>)))
      = index_list (final_fs (main env0 (with_source lunch_src)))
   \<and> slug ` set (index_list (final_fs (main env0 (with_source lunch_src)))) = {''tuna-wrap''}
   \<and> index_list (final_fs (main env1
        ((final_fs (main env0 (with_source lunch_src)))\<lparr> source_json := Some (Source empty_src) \<rparr>)))
      \<noteq> []"
proof -
  let ?fs1 = "final_fs (main env0 (with_source lunch_src))"
  let ?fs1' = "?fs1\<lparr> source_json := Some (Source empty_src) \<rparr>"
  have c: "categories empty_src = Some []" by (simp add: empty_src_def)
  have src: "effective_source ?fs1' = Source empty_src"
    by (simp add: effective_source_def)
  have il: "index_list ?fs1' = index_list ?fs1"
    by (simp add: index_list_def)
  have le: "loop_end env1 ?fs1' empty_src = initial_state ?fs1'"
    by (simp add: loop_end_def src_categories_def pairs_def empty_src_def)
  have eq: "index_list (final_fs (main env1 ?fs1')) = index_list ?fs1"
    by (simp only: run_Source(3) [OF src] le initial_state_simps il)
  have ne: "index_list ?fs1 \<noteq> []"
  proof
    assume "index_list ?fs1 = []"
    then have "slug ` set (index_list ?fs1) = {}" by simp
    then show False by (simp only: lunch_first_run) simp
  qed
  from c eq lunch_first_run ne show ?thesis by (simp only: simp_thms)
qed

section \<open>Properties of the records of the index\<close>

lemma filter_slug_unique:
  "distinct (map slug xs) \<Longrightarrow> s \<in> slug ` set xs \<Longrightarrow> length (filter (\<lambda>r. slug r = s) xs) = 1"
proof (induction xs)
  case Nil
  then show ?case by simp
next
  case (Cons a xs)
  show ?case
  proof (cases "slug a = s")
    case True
    then have "s \<notin> slug ` set xs" using Cons.prems(1) by auto
    then have "filter (\<lambda>r. slug r = s) xs = []" by (auto simp: filter_empty_conv)
    then show ?thesis using True by simp
  next
    case False
    then show ?thesis using Cons by auto
  qed
qed

lemma written_distinct:
  assumes "distinct (map slug xs)"
  shows "distinct (map (\<lambda>r. slug r @ ''.html'') (drop n xs))"
proof -
  have "distinct (map slug (drop n xs))"
    using assms by (simp add: distinct_drop drop_map [symmetric])
  then show ?thesis by (auto simp: distinct_map inj_on_def)
qed

text \<open>
  C3. No two records of the index share a slug. This holds of the file system \<open>fs\<close> after
  any sequence of runs and other changes that starts without a usable index: the list is
  empty at first, and a run appends a record only for a slug that no record of the list
  has. When a title occurs twice in the configuration (in the same category or in two), a
  run on \<open>fs\<close> leaves exactly one record with its slug, writes no article file twice, and
  at the second occurrence the loop body only prints the skip notice: the list, the files
  and the counters are what they were.
\<close>

theorem slugs_are_unique:
  assumes "index_list fs0 = []" and "fs = replay acts fs0"
  shows "distinct (map slug (index_list fs))
   \<and> (\<forall>e src xs c1 t ys c2 zs.
        effective_source fs = Source src
        \<and> pairs (src_categories src) = xs @ (c1, t) # ys @ (c2, t) # zs \<longrightarrow>
          length (filter (\<lambda>r. slug r = slugify t) (index_list (final_fs (main e fs)))) = 1
          \<and> distinct (written (console (main e fs)))
          \<and> Skipping (slugify t) \<in> set (console (main e fs))
          \<and> step e (src_domain src)
               (foldl (step e (src_domain src)) (initial_state fs) (xs @ (c1, t) # ys)) (c2, t)
             = (foldl (step e (src_domain src)) (initial_state fs) (xs @ (c1, t) # ys))
                 \<lparr> out := out (foldl (step e (src_domain src)) (initial_state fs) (xs @ (c1, t) # ys))
                            @ [Skipping (slugify t)] \<rparr>)"
proof -
  have d0: "distinct (map slug (index_list fs))"
    unfolding assms(2) using assms(1) by (intro replay_distinct) simp
  have "length (filter (\<lambda>r. slug r = slugify t) (index_list (final_fs (main e fs)))) = 1
      \<and> distinct (written (console (main e fs)))
      \<and> Skipping (slugify t) \<in> set (console (main e fs))
      \<and> step e (src_domain src)
           (foldl (step e (src_domain src)) (initial_state fs) (xs @ (c1, t) # ys)) (c2, t)
         = (foldl (step e (src_domain src)) (initial_state fs) (xs @ (c1, t) # ys))
             \<lparr> out := out (foldl (step e (src_domain src)) (initial_state fs) (xs @ (c1, t) # ys))
                        @ [Skipping (slugify t)] \<rparr>"
    if src: "effective_source fs = Source src"
      and ps: "pairs (src_categories src) = xs @ (c1, t) # ys @ (c2, t) # zs"
    for e src xs c1 t ys c2 zs
  proof -
    let ?d = "src_domain src"
    let ?b = "foldl (step e ?d) (initial_state fs) (xs @ (c1, t) # ys)"
    have d1: "distinct (map slug (index_list (final_fs (main e fs))))"
      using d0 by (rule run_distinct)
    have "slugify t \<in> slug ` set (index_list (final_fs (main e fs)))"
      by (simp add: run_Source [OF src] loop_end_slugs ps)
    with d1 have one: "length (filter (\<lambda>r. slug r = slugify t) (index_list (final_fs (main e fs)))) = 1"
      by (rule filter_slug_unique)
    have wr: "distinct (written (console (main e fs)))"
      unfolding run_written [OF src] using d1 by (rule written_distinct)
    have "slugify t \<in> slug ` set (articlesList ?b)"
      by (simp add: loop_slugs del: foldl_append)
    then have skip: "step e ?d ?b (c2, t) = ?b\<lparr> out := out ?b @ [Skipping (slugify t)] \<rparr>"
      using step_skip [of "(c2, t)" ?b e ?d] by simp
    have le: "loop_end e fs src = foldl (step e ?d) (step e ?d ?b (c2, t)) zs"
      by (simp add: loop_end_def ps)
    obtain evs where "out (loop_end e fs src) = out (step e ?d ?b (c2, t)) @ evs"
      unfolding le using loop_out_grows by blast
    then have "Skipping (slugify t) \<in> set (out (loop_end e fs src))"
      by (simp add: skip del: foldl_append)
    then have sk: "Skipping (slugify t) \<in> set (console (main e fs))"
      by (simp add: run_Source [OF src])
    from one wr sk skip show ?thesis by blast
  qed
  with d0 show ?thesis by blast
qed

theorem slugs_are_unique_witness:
  "index_list (with_source tuna_src) = []
   \<and> replay [Run env0] (with_source tuna_src) = final_fs (main env0 (with_source tuna_src))
   \<and> effective_source (with_source tuna_src) = Source tuna_src
   \<and> pairs (src_categories tuna_src)
       = [] @ (''Lunch'', ''Tuna Wrap'') # [(''General'', ''Eggs on Toast'')]
            @ (''General'', ''Tuna Wrap'') # []
   \<and> distinct (map slug (index_list (final_fs (main env0 (with_source tuna_src)))))
   \<and> length (filter (\<lambda>r. slug r = ''tuna-wrap'')
        (index_list (final_fs (main env0 (with_source tuna_src))))) = 1
   \<and> distinct (written (console (main env0 (with_source tuna_src))))
   \<and> Skipping ''tuna-wrap'' \<in> set (console (main env0 (with_source tuna_src)))"
proof -
  have i0: "index_list (with_source tuna_src) = []"
    by (simp add: index_list_def loadExistingIndex_def with_source_def fresh_fs_def)
  have r0: "with_source tuna_src = replay [] (with_source tuna_src)" by simp
  have r1: "final_fs (main env0 (with_source tuna_src)) = replay [Run env0] (with_source tuna_src)"
    by simp
  have src: "effective_source (with_source tuna_src) = Source tuna_src"
    by (simp add: effective_source_def with_source_def)
  have ps: "pairs (src_categories tuna_src)
      = [] @ (''Lunch'', ''Tuna Wrap'') # [(''General'', ''Eggs on Toast'')]
           @ (''General'', ''Tuna Wrap'') # []"
    by (simp add: pairs_def src_categories_def tuna_src_def cat_name_def cat_items_def)
  have sl: "slugify ''Tuna Wrap'' = ''tuna-wrap''" by code_simp
  from slugs_are_unique [OF i0 r1]
  have a: "distinct (map slug (index_list (final_fs (main env0 (with_source tuna_src)))))"
    by blast
  from slugs_are_unique [OF i0 r0] src ps
  have "length (filter (\<lambda>r. slug r = slugify ''Tuna Wrap'')
          (index_list (final_fs (main env0 (with_source tuna_src))))) = 1
      \<and> distinct (written (console (main env0 (with_source tuna_src))))
      \<and> Skipping (slugify ''Tuna Wrap'') \<in> set (console (main env0 (with_source tuna_src)))"
    by blast
  with i0 r1 src ps a show ?thesis unfolding sl by simp
qed

text \<open>
  C6. Every record of the index has an excerpt of at most 140 characters that is a prefix of
  the introduction which \<open>buildRecipe\<close> makes for the title of the record. This holds after
  any sequence of runs and other changes that starts without a usable index, and it holds
  of every record that a run appends, whatever the index held before.
\<close>

theorem excerpts_are_bounded_prefixes:
  "(index_list fs0 = [] \<longrightarrow> list_all excerpt_ok (index_list (replay acts fs0)))
   \<and> list_all excerpt_ok (drop (length (index_list fs)) (index_list (final_fs (main e fs))))"
proof -
  have "list_all excerpt_ok (index_list (replay acts fs0))" if "index_list fs0 = []"
    using that by (intro replay_excerpt) simp
  then show ?thesis using run_new_excerpt by blast
qed

theorem excerpts_are_bounded_prefixes_witness:
  "index_list (with_source lunch_src) = []
   \<and> replay [Run env0] (with_source lunch_src) = final_fs (main env0 (with_source lunch_src))
   \<and> list_all excerpt_ok (index_list (final_fs (main env0 (with_source lunch_src))))
   \<and> slugify ''Tuna Wrap'' \<in> slug ` set (index_list (final_fs (main env0 (with_source lunch_src))))"
proof -
  have i0: "index_list (with_source lunch_src) = []"
    by (simp add: index_list_def loadExistingIndex_def with_source_def fresh_fs_def)
  have r1: "replay [Run env0] (with_source lunch_src) = final_fs (main env0 (with_source lunch_src))"
    by simp
  have src: "effective_source (with_source lunch_src) = Source lunch_src"
    by (simp add: effective_source_def with_source_def)
  have "(''Lunch'', ''Tuna Wrap'') \<in> set (pairs (src_categories lunch_src))"
    by (simp add: pairs_def src_categories_def lunch_src_def cat_name_def cat_items_def)
  then have m: "slugify ''Tuna Wrap'' \<in> slug ` set (index_list (final_fs (main env0 (with_source lunch_src))))"
    unfolding run_Source(3) [OF src] loop_end_slugs by force
  from excerpts_are_bounded_prefixes [of "with_source lunch_src" "[Run env0]"] i0
  have "list_all excerpt_ok (index_list (replay [Run env0] (with_source lunch_src)))"
    by blast
  with i0 r1 m show ?thesis by simp
qed

text \<open>
  C4, as amended. Run the script with configuration \<open>A\<close>, then with \<open>A\<close> plus one new
  item (anywhere in the order of the items) whose slug no record of the index has: the
  list of the second run is the list of the first run with one record appended at the
  end, the record of the new item. The records of the first run are there unchanged and in
  order, and the only article file written is the one of the new item.
\<close>

theorem new_item_appends_one_record:
  assumes "source_json fs = Some (Source A)"
    and "pairs (src_categories A) = xs @ ys"
    and "pairs (src_categories A') = xs @ (c, t) # ys"
    and "slugify t \<notin> slug ` set (index_list (final_fs (main e1 fs)))"
  shows "\<exists>r. index_list (final_fs (main e2 ((final_fs (main e1 fs))\<lparr> source_json := Some (Source A') \<rparr>)))
             = index_list (final_fs (main e1 fs)) @ [r]
           \<and> slug r = slugify t \<and> title r = t \<and> category r = c
           \<and> path r = ''articles/'' @ slugify t @ ''.html''
           \<and> written (console (main e2 ((final_fs (main e1 fs))\<lparr> source_json := Some (Source A') \<rparr>)))
               = [slugify t @ ''.html'']"
proof -
  let ?fs1 = "final_fs (main e1 fs)"
  let ?fs1' = "?fs1\<lparr> source_json := Some (Source A') \<rparr>"
  let ?d = "src_domain A'"
  let ?st0 = "initial_state ?fs1'"
  have srcA: "effective_source fs = Source A"
    using assms(1) by (simp add: effective_source_def)
  have srcA': "effective_source ?fs1' = Source A'"
    by (simp add: effective_source_def)
  have il: "index_list ?fs1' = index_list ?fs1"
    by (simp add: index_list_def)
  have cover: "(\<lambda>p. slugify (snd p)) ` set (xs @ ys) \<subseteq> slug ` set (index_list ?fs1)"
    using assms(2) by (simp add: run_Source [OF srcA] loop_end_slugs)
  have l0: "articlesList ?st0 = index_list ?fs1"
    by (simp add: initial_state_simps il)
  have w0: "written (out ?st0) = []"
    by (simp add: initial_state_simps)
  (* The items before the new one are skipped. *)
  let ?sa = "foldl (step e2 ?d) ?st0 xs"
  have "\<forall>p \<in> set xs. slugify (snd p) \<in> slug ` set (articlesList ?st0)"
    using cover l0 by auto
  then have sa: "?sa = ?st0\<lparr> out := out ?st0 @ map (\<lambda>p. Skipping (slugify (snd p))) xs \<rparr>"
    by (rule loop_all_skip)
  have la: "articlesList ?sa = index_list ?fs1" by (simp add: sa l0)
  have wa: "written (out ?sa) = []" by (simp add: sa w0 written_append written_skips)
  (* The new item gets its record and its file. *)
  let ?r = "index_entry (build_meta e2 ?d c t (slugify t) ?sa)"
  let ?sb = "step e2 ?d ?sa (c, t)"
  have new: "slugify t \<notin> slug ` set (articlesList ?sa)"
    using assms(4) la by simp
  have lb: "articlesList ?sb = index_list ?fs1 @ [?r]"
    using new la by (simp add: step_list)
  have wb: "written (out ?sb) = [slugify t @ ''.html'']"
    using new wa by (simp add: step_out written_append)
  (* The items after it are skipped. *)
  have "\<forall>p \<in> set ys. slugify (snd p) \<in> slug ` set (articlesList ?sb)"
    using cover lb by auto
  then have sc: "foldl (step e2 ?d) ?sb ys = ?sb\<lparr> out := out ?sb @ map (\<lambda>p. Skipping (slugify (snd p))) ys \<rparr>"
    by (rule loop_all_skip)
  have le: "loop_end e2 ?fs1' A' = foldl (step e2 ?d) ?sb ys"
    by (simp add: loop_end_def assms(3))
  have "index_list (final_fs (main e2 ?fs1')) = index_list ?fs1 @ [?r]"
    by (simp only: run_Source(3) [OF srcA'] le sc) (simp add: lb)
  moreover have "written (console (main e2 ?fs1')) = [slugify t @ ''.html'']"
    by (simp only: run_Source(2) [OF srcA'] le sc) (simp add: wb written_append written_skips)
  ultimately show ?thesis by (simp add: entry_fields)
qed

theorem new_item_appends_one_record_witness:
  "source_json (with_source lunch_src) = Some (Source lunch_src)
   \<and> pairs (src_categories lunch_src) = [] @ [(''Lunch'', ''Tuna Wrap'')]
   \<and> pairs (src_categories lunch_plus) = [] @ (''Lunch'', ''Budget Chili'') # [(''Lunch'', ''Tuna Wrap'')]
   \<and> slugify ''Budget Chili'' \<notin> slug ` set (index_list (final_fs (main env0 (with_source lunch_src))))
   \<and> (\<exists>r. index_list (final_fs (main env1
              ((final_fs (main env0 (with_source lunch_src)))\<lparr> source_json := Some (Source lunch_plus) \<rparr>)))
            = index_list (final_fs (main env0 (with_source lunch_src))) @ [r]
          \<and> slug r = ''budget-chili'' \<and> title r = ''Budget Chili'' \<and> category r = ''Lunch''
          \<and> path r = ''articles/budget-chili.html'')"
proof -
  have a: "source_json (with_source lunch_src) = Some (Source lunch_src)"
    by (simp add: with_source_def)
  have b: "pairs (src_categories lunch_src) = [] @ [(''Lunch'', ''Tuna Wrap'')]"
    by (simp add: pairs_def src_categories_def lunch_src_def cat_name_def cat_items_def)
  have c: "pairs (src_categories lunch_plus) = [] @ (''Lunch'', ''Budget Chili'') # [(''Lunch'', ''Tuna Wrap'')]"
    by (simp add: pairs_def src_categories_def lunch_plus_def cat_name_def cat_items_def)
  have sl: "slugify ''Budget Chili'' = ''budget-chili''" by code_simp
  have d: "slugify ''Budget Chili'' \<notin> slug ` set (index_list (final_fs (main env0 (with_source lunch_src))))"
    by (simp add: lunch_first_run sl)
  from new_item_appends_one_record [OF a b c d, of env1] a b c d show ?thesis
    unfolding sl by (auto simp: sl)
qed

text \<open>
  C4 as it is worded fails for a new item whose slug is taken: after a run with the item
  "Tuna Wrap", a run with the items "Tuna Wrap" and "tuna wrap!" appends nothing and
  writes no file, since both titles have the slug "tuna-wrap".
\<close>

theorem new_item_with_taken_slug_appends_nothing:
  "pairs (src_categories lunch_src) = [(''Lunch'', ''Tuna Wrap'')]
   \<and> pairs (src_categories lunch_same_slug) = [(''Lunch'', ''Tuna Wrap''), (''Lunch'', ''tuna wrap!'')]
   \<and> index_list (final_fs (main env1
        ((final_fs (main env0 (with_source lunch_src)))\<lparr> source_json := Some (Source lunch_same_slug) \<rparr>)))
      = index_list (final_fs (main env0 (with_source lunch_src)))
   \<and> written (console (main env1
        ((final_fs (main env0 (with_source lunch_src)))\<lparr> source_json := Some (Source lunch_same_slug) \<rparr>)))
      = []"
proof -
  let ?fs1 = "final_fs (main env0 (with_source lunch_src))"
  let ?fs1' = "?fs1\<lparr> source_json := Some (Source lunch_same_slug) \<rparr>"
  have a: "pairs (src_categories lunch_src) = [(''Lunch'', ''Tuna Wrap'')]"
    by (simp add: pairs_def src_categories_def lunch_src_def cat_name_def cat_items_def)
  have b: "pairs (src_categories lunch_same_slug) = [(''Lunch'', ''Tuna Wrap''), (''Lunch'', ''tuna wrap!'')]"
    by (simp add: pairs_def src_categories_def lunch_same_slug_def cat_name_def cat_items_def)
  have src: "effective_source ?fs1' = Source lunch_same_slug"
    by (simp add: effective_source_def)
  have il: "index_list ?fs1' = index_list ?fs1"
    by (simp add: index_list_def)
  have s1: "slugify ''Tuna Wrap'' = ''tuna-wrap''" by code_simp
  have s2: "slugify ''tuna wrap!'' = ''tuna-wrap''" by code_simp
  have cover: "(\<lambda>p. slugify (snd p)) ` set (pairs (src_categories lunch_same_slug))
      \<subseteq> slug ` set (index_list ?fs1')"
    by (simp add: b il lunch_first_run s1 s2)
  from run_all_present(1) [OF src cover, of env1] run_all_present(3) [OF src cover, of env1] il a b
  show ?thesis by simp
qed

lemma no_kept_char_empty_slug:
  assumes "\<forall>c \<in> set t. \<not> (word_char c \<or> space_char c \<or> hyphen c)"
  shows "slugify t = []"
proof -
  have "\<not> kept ascii_letter (lower_unit c)" if "c \<in> set t" for c
  proof -
    have "\<not> kept ascii_letter c"
      using assms that by (simp add: kept_ascii)
    then show ?thesis
      unfolding kept_ascii_code code_lower_unit space_char_def
      by (auto split: if_splits)
  qed
  then have "filter (kept ascii_letter) (toLowerCase t) = []"
    by (auto simp: toLowerCase_def filter_empty_conv)
  then show ?thesis by (simp add: slugify_steps trim_def)
qed

text \<open>
  C10. A title (of code units below 256) without any ASCII letter, digit, underscore,
  whitespace or hyphen has the empty slug, whatever other letters it has. Let such a title
  stand in the configuration where no record of the index and no earlier item has the
  empty slug. Then the run makes one record with the empty slug,
  for this title, with the path "articles/.html"; it writes the page of this title to the
  file ".html" of the articles directory; and every later item with the empty slug is
  skipped: the record stays the only one with the empty slug, the file keeps the page, and
  the console has one skip notice for the empty slug per such later item.
\<close>

theorem empty_slug_record:
  assumes "\<forall>ch \<in> set t. \<not> (word_char ch \<or> space_char ch \<or> hyphen ch)"
  shows "slugify t = []
   \<and> (\<forall>e fs src xs c ys.
        effective_source fs = Source src
        \<and> pairs (src_categories src) = xs @ (c, t) # ys
        \<and> [] \<notin> slug ` set (index_list fs)
        \<and> [] \<notin> (\<lambda>p. slugify (snd p)) ` set xs \<longrightarrow>
          (\<exists>r pg. filter (\<lambda>a. slug a = []) (index_list (final_fs (main e fs))) = [r]
              \<and> title r = t \<and> category r = c \<and> path r = ''articles/.html''
              \<and> articles (final_fs (main e fs)) ''.html'' = Some pg
              \<and> meta_title (page_meta pg) = t)
          \<and> ''.html'' \<in> set (written (console (main e fs)))
          \<and> length (filter (\<lambda>ev. ev = Skipping []) (console (main e fs)))
              = length (filter (\<lambda>p. slugify (snd p) = []) ys))"
proof -
  have s0: "slugify t = []" using assms by (rule no_kept_char_empty_slug)
  have "(\<exists>r pg. filter (\<lambda>a. slug a = []) (index_list (final_fs (main e fs))) = [r]
            \<and> title r = t \<and> category r = c \<and> path r = ''articles/.html''
            \<and> articles (final_fs (main e fs)) ''.html'' = Some pg
            \<and> meta_title (page_meta pg) = t)
        \<and> ''.html'' \<in> set (written (console (main e fs)))
        \<and> length (filter (\<lambda>ev. ev = Skipping []) (console (main e fs)))
            = length (filter (\<lambda>p. slugify (snd p) = []) ys)"
    if src: "effective_source fs = Source src"
      and ps: "pairs (src_categories src) = xs @ (c, t) # ys"
      and n0: "[] \<notin> slug ` set (index_list fs)"
      and nx: "[] \<notin> (\<lambda>p. slugify (snd p)) ` set xs"
    for e fs src xs c ys
  proof -
    let ?d = "src_domain src"
    let ?sa = "foldl (step e ?d) (initial_state fs) xs"
    let ?m = "build_meta e ?d c t [] ?sa"
    let ?r = "index_entry ?m"
    let ?pg = "articleHTML ?m (buildRecipe t) (year e)"
    let ?sb = "step e ?d ?sa (c, t)"
    let ?sc = "foldl (step e ?d) ?sb ys"
    (* before the title: no record with the empty slug, no skip notice for it *)
    have na: "[] \<notin> slug ` set (articlesList ?sa)"
      using n0 nx by (simp add: loop_slugs initial_state_simps)
    then have fa: "filter (\<lambda>a. slug a = []) (articlesList ?sa) = []"
      unfolding filter_empty_conv by (metis imageI)
    have "\<forall>p \<in> set xs. slugify (snd p) \<noteq> []" using nx by force
    then have ka: "filter (\<lambda>ev. ev = Skipping []) (out ?sa) = []"
      by (simp add: loop_no_skip initial_state_simps)
    (* the title: a record, a file and a console line *)
    have sb: "?sb = ?sa\<lparr> files := (files ?sa)(''.html'' \<mapsto> ?pg),
        out := out ?sa @ [Wrote ''.html''],
        articlesList := articlesList ?sa @ [?r],
        clock := clock ?sa + 2, draws := draws ?sa + 1 \<rparr>"
      using step_new [of "(c, t)" ?sa e ?d] na by (simp add: s0)
    have fb: "filter (\<lambda>a. slug a = []) (articlesList ?sb) = [?r]"
      by (simp add: sb fa entry_fields)
    have kb: "filter (\<lambda>ev. ev = Skipping []) (out ?sb) = []"
      by (simp add: sb ka)
    have mb: "[] \<in> slug ` set (articlesList ?sb)"
      by (simp add: sb entry_fields)
    have pb: "files ?sb ''.html'' = Some ?pg"
      by (simp add: sb)
    have ib: "''.html'' \<in> (\<lambda>r. slug r @ ''.html'') ` set (articlesList ?sb)"
      using mb by force
    (* after the title *)
    have le: "loop_end e fs src = ?sc"
      by (simp add: loop_end_def ps)
    have fc: "filter (\<lambda>a. slug a = []) (articlesList ?sc) = [?r]"
      using loop_filter_stable [OF mb] fb by simp
    have pc: "files ?sc ''.html'' = Some ?pg"
      using pb ib by (rule loop_files_mono)
    have kc: "length (filter (\<lambda>ev. ev = Skipping []) (out ?sc))
        = length (filter (\<lambda>p. slugify (snd p) = []) ys)"
      using loop_skip_count [OF mb, of e ?d ys] kb by simp
    obtain evs where "out ?sc = out ?sb @ evs"
      using loop_out_grows by blast
    then have wc: "''.html'' \<in> set (written (out ?sc))"
      by (simp add: sb written_append)
    have 1: "filter (\<lambda>a. slug a = []) (index_list (final_fs (main e fs))) = [?r]"
      by (simp only: run_Source(3) [OF src] le fc)
    have 2: "articles (final_fs (main e fs)) ''.html'' = Some ?pg"
      by (simp only: run_Source(4) [OF src] le pc)
    have 3: "''.html'' \<in> set (written (console (main e fs)))"
      using wc by (simp only: run_Source(2) [OF src] le written_append) simp
    have 4: "length (filter (\<lambda>ev. ev = Skipping []) (console (main e fs)))
        = length (filter (\<lambda>p. slugify (snd p) = []) ys)"
      using kc by (simp only: run_Source(2) [OF src] le) simp
    have 5: "title ?r = t \<and> category ?r = c \<and> path ?r = ''articles/.html''"
      by (simp add: entry_fields)
    have 6: "meta_title (page_meta ?pg) = t"
      by (simp add: articleHTML_def build_meta_def)
    from 1 2 3 4 5 6 show ?thesis by blast
  qed
  with s0 show ?thesis by blast
qed

theorem empty_slug_record_witness:
  "(\<forall>ch \<in> set ''!!!''. \<not> (word_char ch \<or> space_char ch \<or> hyphen ch)) = True
   \<and> slugify ''!!!'' = []
   \<and> effective_source (with_source marks_src) = Source marks_src
   \<and> pairs (src_categories marks_src)
       = [(''Odd'', ''Tuna Wrap'')] @ (''Odd'', ''!!!'') # [(''Odd'', ''Beans Pasta''), (''Odd'', ''?!'')]
   \<and> (\<exists>r pg. filter (\<lambda>a. slug a = []) (index_list (final_fs (main env0 (with_source marks_src)))) = [r]
          \<and> title r = ''!!!'' \<and> category r = ''Odd'' \<and> path r = ''articles/.html''
          \<and> articles (final_fs (main env0 (with_source marks_src))) ''.html'' = Some pg
          \<and> meta_title (page_meta pg) = ''!!!'')
   \<and> ''.html'' \<in> set (written (console (main env0 (with_source marks_src))))
   \<and> length (filter (\<lambda>ev. ev = Skipping []) (console (main env0 (with_source marks_src)))) = 1"
proof -
  have h: "\<forall>ch \<in> set ''!!!''. \<not> (word_char ch \<or> space_char ch \<or> hyphen ch)"
    by (simp add: word_char_def space_char_def hyphen_def code_def)
  have src: "effective_source (with_source marks_src) = Source marks_src"
    by (simp add: effective_source_def with_source_def)
  have ps: "pairs (src_categories marks_src)
      = [(''Odd'', ''Tuna Wrap'')] @ (''Odd'', ''!!!'') # [(''Odd'', ''Beans Pasta''), (''Odd'', ''?!'')]"
    by (simp add: pairs_def src_categories_def marks_src_def cat_name_def cat_items_def)
  have n0: "[] \<notin> slug ` set (index_list (with_source marks_src))"
    by (simp add: index_list_def loadExistingIndex_def with_source_def fresh_fs_def)
  have s1: "slugify ''Tuna Wrap'' = ''tuna-wrap''" by code_simp
  have s2: "slugify ''Beans Pasta'' = ''beans-pasta''" by code_simp
  have s3: "slugify ''?!'' = []" by code_simp
  have nx: "[] \<notin> (\<lambda>p. slugify (snd p)) ` set [(''Odd'', ''Tuna Wrap'')]"
    by (simp add: s1)
  have cnt: "length (filter (\<lambda>p. slugify (snd p) = []) [(''Odd'', ''Beans Pasta''), (''Odd'', ''?!'')]) = 1"
    by (simp add: s2 s3)
  note th = empty_slug_record [OF h]
  from th have e0: "slugify ''!!!'' = []" by blast
  from th src ps n0 nx
  have "(\<exists>r pg. filter (\<lambda>a. slug a = []) (index_list (final_fs (main env0 (with_source marks_src)))) = [r]
          \<and> title r = ''!!!'' \<and> category r = ''Odd'' \<and> path r = ''articles/.html''
          \<and> articles (final_fs (main env0 (with_source marks_src))) ''.html'' = Some pg
          \<and> meta_title (page_meta pg) = ''!!!'')
      \<and> ''.html'' \<in> set (written (console (main env0 (with_source marks_src))))
      \<and> length (filter (\<lambda>ev. ev = Skipping []) (console (main env0 (with_source marks_src))))
          = length (filter (\<lambda>p. slugify (snd p) = []) [(''Odd'', ''Beans Pasta''), (''Odd'', ''?!'')])"
    by blast
  with h e0 src ps cnt show ?thesis by simp
qed

end
